theory Spec2Isabelle
  imports Main "HOL-Library.Word" "HOL-Library.Sublist" "HOL-Library.Multiset"
begin

unbundle bit_operations_syntax

section \<open>Go's float64: IEEE 754 binary64\<close>

text \<open>
  A \<open>float64\<close> is its 64-bit pattern: sign (bit 63), biased exponent (bits 62..52),
  fraction (bits 51..0). Every bit pattern is a float, so no invariant is needed.

  Every finite double is an integer multiple of \<open>2^-1074\<close>. \<open>f64_mag\<close> is the magnitude
  in that unit and \<open>f64_val\<close> the signed value. The same formula sends an infinity to
  \<open>2^2098\<close>, above every finite magnitude, so that the order of \<open>f64_val\<close> is the IEEE
  order on all values that are not NaN; both zeros have value 0.
\<close>

type_synonym float64 = "64 word"

definition f64_sign :: "float64 \<Rightarrow> bool" where
  "f64_sign w = bit w 63"

definition f64_exp :: "float64 \<Rightarrow> nat" where
  "f64_exp w = unat (take_bit 11 (drop_bit 52 w))"

definition f64_frac :: "float64 \<Rightarrow> nat" where
  "f64_frac w = unat (take_bit 52 w)"

definition f64_mag :: "float64 \<Rightarrow> nat" where
  "f64_mag w = (if f64_exp w = 0 then f64_frac w
                else (2 ^ 52 + f64_frac w) * 2 ^ (f64_exp w - 1))"

definition f64_val :: "float64 \<Rightarrow> int" where
  "f64_val w = (if f64_sign w then - int (f64_mag w) else int (f64_mag w))"

definition f64_isNaN :: "float64 \<Rightarrow> bool" where
  "f64_isNaN w = (f64_exp w = 2047 \<and> f64_frac w \<noteq> 0)"

definition f64_isInf :: "float64 \<Rightarrow> bool" where
  "f64_isInf w = (f64_exp w = 2047 \<and> f64_frac w = 0)"

text \<open>Go's \<open>a < b\<close>, \<open>a > b\<close>, \<open>a == b\<close> and \<open>a != b\<close> on float64: a comparison with
  a NaN is false, except \<open>!=\<close>, which is the negation of \<open>==\<close>. The two zeros are equal.\<close>

definition f64_lt :: "float64 \<Rightarrow> float64 \<Rightarrow> bool" where
  "f64_lt a b = (\<not> f64_isNaN a \<and> \<not> f64_isNaN b \<and> f64_val a < f64_val b)"

definition f64_gt :: "float64 \<Rightarrow> float64 \<Rightarrow> bool" where
  "f64_gt a b = f64_lt b a"

definition f64_eq :: "float64 \<Rightarrow> float64 \<Rightarrow> bool" where
  "f64_eq a b = (\<not> f64_isNaN a \<and> \<not> f64_isNaN b \<and> f64_val a = f64_val b)"

definition f64_ne :: "float64 \<Rightarrow> float64 \<Rightarrow> bool" where
  "f64_ne a b = (\<not> f64_eq a b)"

definition f64_signbit :: float64 where
  "f64_signbit = push_bit 63 1"

definition f64_qNaN :: float64 where
  "f64_qNaN = 0x7FF8000000000000"

definition f64_posInf :: float64 where
  "f64_posInf = 0x7FF0000000000000"

text \<open>\<open>math.Abs\<close> clears the sign bit: \<open>Float64frombits(Float64bits(x) &^ (1 << 63))\<close>.\<close>

definition f64_abs :: "float64 \<Rightarrow> float64" where
  "f64_abs w = w AND NOT f64_signbit"

definition f64_neg :: "float64 \<Rightarrow> float64" where
  "f64_neg w = w XOR f64_signbit"

fun bitlen :: "nat \<Rightarrow> nat" where
  "bitlen n = (if n = 0 then 0 else Suc (bitlen (n div 2)))"

declare bitlen.simps [simp del]

text \<open>
  Rounding an exact nonzero magnitude \<open>m\<close> (in units of \<open>2^-1074\<close>) to the nearest double,
  ties to even. Below \<open>2^53\<close> the magnitude is representable and is its own bit pattern
  (subnormals and the first binade). Otherwise the top 53 bits \<open>q\<close> are kept and the
  remainder \<open>r\<close> decides the rounding; adding the rounded significand to the exponent
  field carries into the exponent when the significand overflows, and a result at or
  beyond the exponent 2047 is an infinity.
\<close>

definition f64_round :: "nat \<Rightarrow> float64" where
  "f64_round m =
     (if m < 2 ^ 53 then word_of_nat m
      else let k = bitlen m - 53;
               q = m div 2 ^ k;
               r = m mod 2 ^ k;
               h = 2 ^ (k - 1);
               q' = (if h < r \<or> (r = h \<and> odd q) then q + 1 else q);
               bits = k * 2 ^ 52 + q'
           in if 2047 * 2 ^ 52 \<le> bits then f64_posInf else word_of_nat bits)"

text \<open>
  Go's \<open>a - b\<close> on float64 (round to nearest, ties to even). A NaN operand, and the
  difference of two infinities of one sign, give a NaN; the payload of a NaN is not
  modelled (no operation of this program reads it), the result is the quiet NaN.
  An exact zero difference is \<open>+0\<close>, except \<open>(-0) - (+0) = -0\<close>.
\<close>

definition f64_sub :: "float64 \<Rightarrow> float64 \<Rightarrow> float64" where
  "f64_sub a b =
     (if f64_isNaN a \<or> f64_isNaN b then f64_qNaN
      else if f64_isInf a then (if f64_isInf b \<and> f64_sign a = f64_sign b then f64_qNaN else a)
      else if f64_isInf b then f64_neg b
      else let d = f64_val a - f64_val b in
           if d = 0 then (if f64_sign a \<and> \<not> f64_sign b then f64_signbit else 0)
           else if d < 0 then f64_round (nat (- d)) OR f64_signbit
           else f64_round (nat d))"

text \<open>The literal \<open>0.000001\<close> as a float64: the double nearest to \<open>10^-6\<close>.\<close>

definition f64_epsilon :: float64 where
  "f64_epsilon = 0x3EB0C6F7A0B5ED8D"

text \<open>\<open>func floatApproxEquals(a, b float64) bool { return math.Abs(a-b) < 0.000001 }\<close>\<close>

definition floatApproxEquals :: "float64 \<Rightarrow> float64 \<Rightarrow> bool" where
  "floatApproxEquals a b = f64_lt (f64_abs (f64_sub a b)) f64_epsilon"

section \<open>Go's strings package\<close>

text \<open>A Go string is a sequence of bytes: a \<open>string\<close> here.\<close>

fun strings_HasPrefix :: "string \<Rightarrow> string \<Rightarrow> bool" where
  "strings_HasPrefix s [] = True"
| "strings_HasPrefix [] (p # ps) = False"
| "strings_HasPrefix (c # cs) (p # ps) = (c = p \<and> strings_HasPrefix cs ps)"

text \<open>\<open>strings.Contains(s, substr)\<close>: \<open>substr\<close> occurs in \<open>s\<close> as a block of bytes.\<close>

fun strings_Contains :: "string \<Rightarrow> string \<Rightarrow> bool" where
  "strings_Contains [] substr = (substr = [])"
| "strings_Contains (c # cs) substr =
     (strings_HasPrefix (c # cs) substr \<or> strings_Contains cs substr)"

text \<open>\<open>strings.Compare(a, b)\<close>: the three-way lexicographic comparison of the bytes.\<close>

fun strings_Compare :: "string \<Rightarrow> string \<Rightarrow> int" where
  "strings_Compare [] [] = 0"
| "strings_Compare [] (y # ys) = - 1"
| "strings_Compare (x # xs) [] = 1"
| "strings_Compare (x # xs) (y # ys) =
     (if (of_char x :: nat) < of_char y then - 1
      else if (of_char y :: nat) < of_char x then 1
      else strings_Compare xs ys)"

text \<open>
  \<open>strings.EqualFold(s, t)\<close>. The library compares byte by byte while both bytes are
  ASCII: equal bytes, or an upper-case letter and its lower-case form, go on; any other
  pair is a mismatch; at the end both strings must be exhausted. At the first byte of
  either string that is not ASCII it hands the two remaining suffixes to the comparison
  under Unicode simple case folding, whose tables are not part of this program: that
  comparison is the parameter \<open>uf\<close>.
\<close>

definition asciiFoldEq :: "char \<Rightarrow> char \<Rightarrow> bool" where
  "asciiFoldEq sr tr =
     (let a = (of_char sr :: nat); b = of_char tr; lo = min a b; hi = max a b
      in a = b \<or> (65 \<le> lo \<and> lo \<le> 90 \<and> hi = lo + 32))"

fun strings_EqualFold :: "(string \<Rightarrow> string \<Rightarrow> bool) \<Rightarrow> string \<Rightarrow> string \<Rightarrow> bool" where
  "strings_EqualFold uf [] t = (t = [])"
| "strings_EqualFold uf (sr # s) [] = False"
| "strings_EqualFold uf (sr # s) (tr # t) =
     (if 128 \<le> (of_char sr :: nat) \<or> 128 \<le> (of_char tr :: nat) then uf (sr # s) (tr # t)
      else if asciiFoldEq sr tr then strings_EqualFold uf s t
      else False)"

section \<open>Schemas and values\<close>

text \<open>\<open>schema.ValueType\<close> of the Terraform plugin SDK, in the order of its constants.\<close>

datatype ValueType =
  TypeInvalid | TypeBool | TypeInt | TypeFloat | TypeString | TypeList | TypeMap | TypeSet
  | TypeObject

text \<open>
  Of \<open>schema.Schema\<close> the program reads the fields \<open>Type\<close> and \<open>Elem\<close>. \<open>Elem\<close> is an
  \<open>interface{}\<close>: \<open>Some e\<close> when it holds a \<open>*schema.Schema\<close>, \<open>None\<close> when it holds
  anything else (nil, a \<open>*schema.Resource\<close>), where the assertion
  \<open>s.Elem.(*schema.Schema)\<close> panics. The pointers to schemas, sets and compiled
  patterns that the program follows are taken to be non-nil.
\<close>

datatype schema = Schema (Type: ValueType) (Elem: "schema option")

text \<open>
  A value of type \<open>interface{}\<close>, by its dynamic type. Go's \<open>int\<close> is only compared,
  never computed with, so it is an \<open>int\<close>. A \<open>*schema.Set\<close> is the list its \<open>List()\<close>
  method returns. A \<open>*regexp.Regexp\<close> is its \<open>MatchString\<close> method. \<open>VOther\<close> is a
  value of any other dynamic type.
\<close>

datatype iface =
  VString string | VBool bool | VInt int | VFloat float64
  | VList "iface list" | VSet "iface list" | VRegexp "string \<Rightarrow> bool" | VOther

text \<open>A failed type assertion \<open>x.(T)\<close> panics, and so does \<open>panic(msg)\<close>.\<close>

datatype error = TypeAssertion | Panic string

section \<open>valueMatches and compareValues\<close>

text \<open>
  The first argument is the Unicode case folding used by \<open>strings.EqualFold\<close> beyond
  ASCII. \<open>matchLoop\<close> is the \<open>for _, listValue := range listValues\<close> loop of the
  \<open>TypeList\<close> and \<open>TypeSet\<close> cases, with the variable \<open>result\<close> as its last argument:
  every element is matched, also after \<open>result\<close> has become true.
\<close>

fun valueMatches ::
    "(string \<Rightarrow> string \<Rightarrow> bool) \<Rightarrow> schema \<Rightarrow> iface \<Rightarrow> iface \<Rightarrow> string \<Rightarrow> error + bool"
  and matchLoop ::
    "(string \<Rightarrow> string \<Rightarrow> bool) \<Rightarrow> schema \<Rightarrow> iface list \<Rightarrow> iface \<Rightarrow> string \<Rightarrow> bool
       \<Rightarrow> error + bool"
where
  "valueMatches uf s val filterValue matchBy =
     (case Type s of
        TypeString \<Rightarrow>
          (if matchBy = ''substring'' then
             (case val of
                VString v \<Rightarrow>
                  (case filterValue of
                     VString f \<Rightarrow> Inr (strings_Contains v f)
                   | _ \<Rightarrow> Inl TypeAssertion)
              | _ \<Rightarrow> Inl TypeAssertion)
           else if matchBy = ''re'' then
             (case filterValue of
                VRegexp re \<Rightarrow>
                  (case val of
                     VString v \<Rightarrow> Inr (re v)
                   | _ \<Rightarrow> Inl TypeAssertion)
              | _ \<Rightarrow> Inl TypeAssertion)
           else
             (case filterValue of
                VString f \<Rightarrow>
                  (case val of
                     VString v \<Rightarrow> Inr (strings_EqualFold uf f v)
                   | _ \<Rightarrow> Inl TypeAssertion)
              | _ \<Rightarrow> Inl TypeAssertion))
      | TypeBool \<Rightarrow>
          (case filterValue of
             VBool f \<Rightarrow>
               (case val of
                  VBool v \<Rightarrow> Inr (f = v)
                | _ \<Rightarrow> Inl TypeAssertion)
           | _ \<Rightarrow> Inl TypeAssertion)
      | TypeInt \<Rightarrow>
          (case val of
             VInt v \<Rightarrow>
               (case filterValue of
                  VInt f \<Rightarrow>
                    (if matchBy = ''less_than'' then Inr (v < f)
                     else if matchBy = ''less_than_or_equal'' then Inr (v \<le> f)
                     else if matchBy = ''greater_than'' then Inr (v > f)
                     else if matchBy = ''greater_than_or_equal'' then Inr (v \<ge> f)
                     else Inr (v = f))
                | _ \<Rightarrow> Inl TypeAssertion)
           | _ \<Rightarrow> Inl TypeAssertion)
      | TypeFloat \<Rightarrow>
          (case val of
             VFloat v \<Rightarrow>
               (case filterValue of
                  VFloat f \<Rightarrow>
                    (if matchBy = ''less_than'' then
                       Inr (f64_ne v 0 \<and> f64_lt v f)
                     else if matchBy = ''less_than_or_equal'' then
                       Inr (f64_ne v 0 \<and> (f64_lt v f \<or> floatApproxEquals f v))
                     else if matchBy = ''greater_than'' then
                       Inr (f64_ne v 0 \<and> f64_gt v f)
                     else if matchBy = ''greater_than_or_equal'' then
                       Inr (f64_ne v 0 \<and> (f64_gt v f \<or> floatApproxEquals f v))
                     else Inr (floatApproxEquals f v))
                | _ \<Rightarrow> Inl TypeAssertion)
           | _ \<Rightarrow> Inl TypeAssertion)
      | TypeList \<Rightarrow>
          (case val of
             VList listValues \<Rightarrow> matchLoop uf s listValues filterValue matchBy False
           | _ \<Rightarrow> Inl TypeAssertion)
      | TypeSet \<Rightarrow>
          (case val of
             VSet listValues \<Rightarrow> matchLoop uf s listValues filterValue matchBy False
           | _ \<Rightarrow> Inl TypeAssertion)
      | _ \<Rightarrow> Inr False)"
| "matchLoop uf s [] filterValue matchBy result = Inr result"
| "matchLoop uf s (listValue # listValues) filterValue matchBy result =
     (case Elem s of
        None \<Rightarrow> Inl TypeAssertion
      | Some es \<Rightarrow>
          (case valueMatches uf es listValue filterValue matchBy of
             Inl e \<Rightarrow> Inl e
           | Inr valueDoesMatch \<Rightarrow>
               matchLoop uf s listValues filterValue matchBy (result \<or> valueDoesMatch)))"

declare valueMatches.simps [simp del]

definition compareValues :: "schema \<Rightarrow> iface \<Rightarrow> iface \<Rightarrow> error + int" where
  "compareValues s value1 value2 =
     (case Type s of
        TypeString \<Rightarrow>
          (case value1 of
             VString a \<Rightarrow>
               (case value2 of
                  VString b \<Rightarrow> Inr (strings_Compare a b)
                | _ \<Rightarrow> Inl TypeAssertion)
           | _ \<Rightarrow> Inl TypeAssertion)
      | TypeBool \<Rightarrow>
          (case value1 of
             VBool boolValue1 \<Rightarrow>
               (case value2 of
                  VBool boolValue2 \<Rightarrow>
                    (if boolValue1 = boolValue2 then Inr 0
                     else if \<not> boolValue1 then Inr (- 1)
                     else Inr 1)
                | _ \<Rightarrow> Inl TypeAssertion)
           | _ \<Rightarrow> Inl TypeAssertion)
      | TypeInt \<Rightarrow>
          (case value1 of
             VInt intValue1 \<Rightarrow>
               (case value2 of
                  VInt intValue2 \<Rightarrow>
                    (if intValue1 < intValue2 then Inr (- 1)
                     else if intValue1 > intValue2 then Inr 1
                     else Inr 0)
                | _ \<Rightarrow> Inl TypeAssertion)
           | _ \<Rightarrow> Inl TypeAssertion)
      | TypeFloat \<Rightarrow>
          (case value1 of
             VFloat floatValue1 \<Rightarrow>
               (case value2 of
                  VFloat floatValue2 \<Rightarrow>
                    (if floatApproxEquals floatValue1 floatValue2 then Inr 0
                     else if f64_lt floatValue1 floatValue2 then Inr (- 1)
                     else if f64_gt floatValue1 floatValue2 then Inr 1
                     else Inr 0)
                | _ \<Rightarrow> Inl TypeAssertion)
           | _ \<Rightarrow> Inl TypeAssertion)
      | _ \<Rightarrow> Inl (Panic ''Illegal state: Unsupported value type for sort''))"


section \<open>Sorting by compareValues\<close>

text \<open>
  Modelled from the spec: the routine that sorts with \<open>compareValues\<close> is not in the
  source files (section 4.2: the comparator is "used for sort ordering"; section 8:
  "sorting a sequence by compare"), and the specification names no sorting routine.
  Two standard routines are given, and the results say which of them they are about.
  The first is a stable insertion sort. It sees the comparator as sorting routines do,
  through the test "a goes before b", which is \<open>compare(a, b) < 0\<close>, and a panic of
  the comparator ends it.
\<close>

definition lessValues :: "schema \<Rightarrow> iface \<Rightarrow> iface \<Rightarrow> error + bool" where
  "lessValues s a b =
     (case compareValues s a b of Inl e \<Rightarrow> Inl e | Inr cmp \<Rightarrow> Inr (cmp < 0))"

text \<open>Modelled from the spec: the insertion step of the sort, which is not in the source
  files. \<open>x\<close> goes before the first element that is not less than it.\<close>

fun insertSorted :: "schema \<Rightarrow> iface \<Rightarrow> iface list \<Rightarrow> error + iface list" where
  "insertSorted s x [] = Inr [x]"
| "insertSorted s x (y # ys) =
     (case lessValues s y x of
        Inl e \<Rightarrow> Inl e
      | Inr True \<Rightarrow>
          (case insertSorted s x ys of Inl e \<Rightarrow> Inl e | Inr zs \<Rightarrow> Inr (y # zs))
      | Inr False \<Rightarrow> Inr (x # y # ys))"

text \<open>Modelled from the spec: "sorting a sequence by compare" (section 8); the sort is
  not in the source files.\<close>

fun sortValues :: "schema \<Rightarrow> iface list \<Rightarrow> error + iface list" where
  "sortValues s [] = Inr []"
| "sortValues s (x # xs) =
     (case sortValues s xs of Inl e \<Rightarrow> Inl e | Inr ys \<Rightarrow> insertSorted s x ys)"

text \<open>
  Modelled from the spec: "sorting a sequence by compare" (section 8) names no sorting
  routine and none is in the source files. Beside the insertion sort, a second standard
  routine is given, a three-way quicksort: the first element is the pivot, the others
  are split into those that compare less than, equal to and greater than the pivot, and
  the two outer parts are sorted in the same way.
\<close>

fun partition3 ::
    "schema \<Rightarrow> iface \<Rightarrow> iface list \<Rightarrow> error + (iface list \<times> iface list \<times> iface list)" where
  "partition3 s p [] = Inr ([], [], [])"
| "partition3 s p (x # xs) =
     (case compareValues s x p of
        Inl e \<Rightarrow> Inl e
      | Inr cmp \<Rightarrow>
          (case partition3 s p xs of
             Inl e \<Rightarrow> Inl e
           | Inr (ls, es, gs) \<Rightarrow>
               (if cmp < 0 then Inr (x # ls, es, gs)
                else if cmp = 0 then Inr (ls, x # es, gs)
                else Inr (ls, es, x # gs))))"

text \<open>Modelled from the spec: the three-way quicksort with \<open>compareValues\<close> as its
  comparator; the sort is not in the source files.\<close>

function quickSortValues :: "schema \<Rightarrow> iface list \<Rightarrow> error + iface list" where
  "quickSortValues s [] = Inr []"
| "quickSortValues s (p # xs) =
     (case partition3 s p xs of
        Inl e \<Rightarrow> Inl e
      | Inr (ls, es, gs) \<Rightarrow>
          (case quickSortValues s ls of
             Inl e \<Rightarrow> Inl e
           | Inr sl \<Rightarrow>
               (case quickSortValues s gs of
                  Inl e \<Rightarrow> Inl e
                | Inr sg \<Rightarrow> Inr (sl @ p # es @ sg))))"
  by pat_completeness auto
termination
proof (relation "measure (\<lambda>(s, xs). length xs)")
  have len: "length ls + length es + length gs = length xs"
    if "partition3 s p xs = Inr (ls, es, gs)" for s p xs ls es gs
    using that
    by (induction xs arbitrary: ls es gs) (auto split: sum.splits prod.splits if_splits)
  show "wf (measure (\<lambda>(s, xs). length xs))" by simp
  show "((s, ls), (s, p # xs)) \<in> measure (\<lambda>(s, xs). length xs)"
    if "partition3 s p xs = Inr x2" "(ls, y) = x2" for s p xs x2 ls y
    using len [of s p xs ls "fst y" "snd y"] that by auto
  show "((s, gs), (s, p # xs)) \<in> measure (\<lambda>(s, xs). length xs)"
    if "partition3 s p xs = Inr x2" "(ls, y) = x2" "(es, gs) = y" for s p xs x2 ls y es gs
    using len [of s p xs ls es gs] that by auto
qed

text \<open>The sortedness check on adjacent pairs: \<open>compare(a, b) <= 0\<close>, and no panic.\<close>

definition inOrder :: "schema \<Rightarrow> iface \<Rightarrow> iface \<Rightarrow> bool" where
  "inOrder s a b = (case compareValues s a b of Inl e \<Rightarrow> False | Inr cmp \<Rightarrow> cmp \<le> 0)"

fun adjacentSorted :: "schema \<Rightarrow> iface list \<Rightarrow> bool" where
  "adjacentSorted s [] = True"
| "adjacentSorted s [x] = True"
| "adjacentSorted s (x # y # ys) = (inOrder s x y \<and> adjacentSorted s (y # ys))"

text \<open>A value whose dynamic type is the one an orderable type tag asks for.\<close>

definition scalarOfType :: "ValueType \<Rightarrow> iface \<Rightarrow> bool" where
  "scalarOfType t v =
     (case v of
        VString a \<Rightarrow> t = TypeString
      | VBool a \<Rightarrow> t = TypeBool
      | VInt a \<Rightarrow> t = TypeInt
      | VFloat a \<Rightarrow> t = TypeFloat
      | _ \<Rightarrow> False)"

text \<open>Lower-casing of an ASCII letter, to state what case-insensitive equality is.\<close>

definition asciiLower :: "char \<Rightarrow> char" where
  "asciiLower c =
     (if 65 \<le> (of_char c :: nat) \<and> (of_char c :: nat) \<le> 90
      then char_of (of_char c + 32 :: nat) else c)"

definition isASCII :: "string \<Rightarrow> bool" where
  "isASCII s = (\<forall>c \<in> set s. (of_char c :: nat) < 128)"

section \<open>Properties of the float64 model\<close>

lemma fields_and_not:
  fixes w :: "64 word"
  assumes "63 \<le> k"
  shows "take_bit 11 (drop_bit 52 (w AND NOT (push_bit k 1))) = take_bit 11 (drop_bit 52 w)"
    and "take_bit 52 (w AND NOT (push_bit k 1)) = take_bit 52 w"
  using assms by (auto intro!: bit_word_eqI simp: bit_simps)

lemma fields_or:
  fixes w :: "64 word"
  assumes "63 \<le> k"
  shows "take_bit 11 (drop_bit 52 (w OR push_bit k 1)) = take_bit 11 (drop_bit 52 w)"
    and "take_bit 52 (w OR push_bit k 1) = take_bit 52 w"
  using assms by (auto intro!: bit_word_eqI simp: bit_simps)

lemma fields_xor:
  fixes w :: "64 word"
  assumes "63 \<le> k"
  shows "take_bit 11 (drop_bit 52 (w XOR push_bit k 1)) = take_bit 11 (drop_bit 52 w)"
    and "take_bit 52 (w XOR push_bit k 1) = take_bit 52 w"
  using assms by (auto intro!: bit_word_eqI simp: bit_simps)

lemma f64_exp_abs: "f64_exp (f64_abs w) = f64_exp w"
  unfolding f64_exp_def f64_abs_def f64_signbit_def by (simp only: fields_and_not [OF order_refl])

lemma f64_frac_abs: "f64_frac (f64_abs w) = f64_frac w"
  unfolding f64_frac_def f64_abs_def f64_signbit_def by (simp only: fields_and_not [OF order_refl])

lemma f64_sign_abs: "\<not> f64_sign (f64_abs w)"
  by (simp add: f64_sign_def f64_abs_def f64_signbit_def bit_simps)

lemma f64_exp_or: "f64_exp (w OR f64_signbit) = f64_exp w"
  unfolding f64_exp_def f64_signbit_def by (simp only: fields_or [OF order_refl])

lemma f64_frac_or: "f64_frac (w OR f64_signbit) = f64_frac w"
  unfolding f64_frac_def f64_signbit_def by (simp only: fields_or [OF order_refl])

lemma f64_exp_neg: "f64_exp (f64_neg w) = f64_exp w"
  unfolding f64_exp_def f64_neg_def f64_signbit_def by (simp only: fields_xor [OF order_refl])

lemma f64_frac_neg: "f64_frac (f64_neg w) = f64_frac w"
  unfolding f64_frac_def f64_neg_def f64_signbit_def by (simp only: fields_xor [OF order_refl])

lemma f64_sign_neg: "f64_sign (f64_neg w) = (\<not> f64_sign w)"
  by (simp add: f64_sign_def f64_neg_def f64_signbit_def bit_simps)

lemma f64_exp_less: "f64_exp w < 2048"
proof -
  have "take_bit 11 (unat (drop_bit 52 w)) < 2 ^ 11"
    by (rule take_bit_nat_less_exp)
  then show ?thesis by (simp add: f64_exp_def unsigned_take_bit_eq)
qed

lemma f64_frac_less: "f64_frac w < 2 ^ 52"
  unfolding f64_frac_def unsigned_take_bit_eq by (rule take_bit_nat_less_exp)

lemma f64_qNaN_isNaN: "f64_isNaN f64_qNaN"
  by (simp add: f64_isNaN_def f64_qNaN_def f64_exp_def f64_frac_def)

lemma f64_epsilon_val: "f64_val f64_epsilon = (2 ^ 52 + 218766855499149) * 2 ^ 1002"
  by (simp add: f64_val_def f64_sign_def f64_mag_def f64_epsilon_def f64_exp_def f64_frac_def)

lemma f64_epsilon_not_NaN: "\<not> f64_isNaN f64_epsilon"
  by (simp add: f64_isNaN_def f64_epsilon_def f64_exp_def f64_frac_def)

lemma f64_zero_fields: "f64_exp 0 = 0" "f64_frac 0 = 0" "\<not> f64_sign 0"
  "f64_exp f64_signbit = 0" "f64_frac f64_signbit = 0" "f64_sign f64_signbit"
  by (simp_all add: f64_exp_def f64_frac_def f64_sign_def f64_signbit_def)

lemma f64_isNaN_abs: "f64_isNaN (f64_abs w) = f64_isNaN w"
  by (simp add: f64_isNaN_def f64_exp_abs f64_frac_abs)

lemma f64_mag_abs: "f64_mag (f64_abs w) = f64_mag w"
  by (simp add: f64_mag_def f64_exp_abs f64_frac_abs)

lemma f64_val_abs: "f64_val (f64_abs w) = int (f64_mag w)"
  by (simp add: f64_val_def f64_sign_abs f64_mag_abs)

lemma f64_isNaN_or: "f64_isNaN (w OR f64_signbit) = f64_isNaN w"
  by (simp add: f64_isNaN_def f64_exp_or f64_frac_or)

lemma f64_mag_or: "f64_mag (w OR f64_signbit) = f64_mag w"
  by (simp add: f64_mag_def f64_exp_or f64_frac_or)

lemma f64_isNaN_neg: "f64_isNaN (f64_neg w) = f64_isNaN w"
  by (simp add: f64_isNaN_def f64_exp_neg f64_frac_neg)

lemma f64_isInf_neg: "f64_isInf (f64_neg w) = f64_isInf w"
  by (simp add: f64_isInf_def f64_exp_neg f64_frac_neg)

lemma f64_mag_neg: "f64_mag (f64_neg w) = f64_mag w"
  by (simp add: f64_mag_def f64_exp_neg f64_frac_neg)

lemma f64_mag_zero: "f64_mag 0 = 0" "f64_mag f64_signbit = 0"
  by (simp_all add: f64_mag_def f64_zero_fields)

lemma f64_zero_not_NaN: "\<not> f64_isNaN 0" "\<not> f64_isNaN f64_signbit"
  by (simp_all add: f64_isNaN_def f64_zero_fields)

lemma f64_val_zero: "f64_val 0 = 0" "f64_val f64_signbit = 0"
  by (simp_all add: f64_val_def f64_mag_zero)

lemma f64_isInf_mag: "f64_isInf w \<Longrightarrow> f64_mag w = 2 ^ 2098"
  by (simp add: f64_isInf_def f64_mag_def)

lemma f64_isInf_not_NaN: "f64_isInf w \<Longrightarrow> \<not> f64_isNaN w"
  by (simp add: f64_isInf_def f64_isNaN_def)

lemma f64_finite_mag:
  assumes "\<not> f64_isNaN w" and "\<not> f64_isInf w"
  shows "f64_mag w < 2 ^ 2098"
proof -
  have e: "f64_exp w < 2047"
    using assms f64_exp_less [of w] by (auto simp: f64_isNaN_def f64_isInf_def)
  show ?thesis
  proof (cases "f64_exp w = 0")
    case True
    have "f64_frac w < 2 ^ 52" by (rule f64_frac_less)
    also have "(2::nat) ^ 52 < 2 ^ 2098" by (rule power_strict_increasing) simp_all
    finally show ?thesis using True by (simp add: f64_mag_def)
  next
    case False
    have "2 ^ 52 + f64_frac w < 2 ^ 52 + 2 ^ 52"
      using f64_frac_less [of w] by simp
    then have a: "2 ^ 52 + f64_frac w < 2 ^ 53" by simp
    have "f64_exp w - 1 \<le> 2045" using e by simp
    then have b: "(2::nat) ^ (f64_exp w - 1) \<le> 2 ^ 2045"
      by (rule power_increasing) simp
    have "(2 ^ 52 + f64_frac w) * 2 ^ (f64_exp w - 1) < 2 ^ 53 * 2 ^ 2045"
      using a b by (intro mult_less_le_imp_less) simp_all
    also have "(2::nat) ^ 53 * 2 ^ 2045 = 2 ^ 2098"
      by (simp add: power_add [symmetric])
    finally show ?thesis using False by (simp add: f64_mag_def)
  qed
qed

lemma f64_approx_iff:
  "floatApproxEquals a b \<longleftrightarrow>
     \<not> f64_isNaN (f64_sub a b) \<and> int (f64_mag (f64_sub a b)) < f64_val f64_epsilon"
  by (simp add: floatApproxEquals_def f64_lt_def f64_isNaN_abs f64_val_abs f64_epsilon_not_NaN)

lemma f64_sub_NaN: "f64_isNaN a \<or> f64_isNaN b \<Longrightarrow> f64_sub a b = f64_qNaN"
  by (simp add: f64_sub_def)

lemma f64_sub_sym:
  "f64_isNaN (f64_sub a b) = f64_isNaN (f64_sub b a) \<and>
   f64_mag (f64_sub a b) = f64_mag (f64_sub b a)"
proof -
  have neg: "nat (- (f64_val a - f64_val b)) = nat (f64_val b - f64_val a)" by simp
  show ?thesis
    by (auto simp: f64_sub_def Let_def f64_isNaN_or f64_mag_or f64_isNaN_neg f64_mag_neg
        f64_isInf_mag f64_isInf_not_NaN f64_qNaN_isNaN f64_mag_zero f64_zero_not_NaN neg)
qed

lemma floatApproxEquals_sym: "floatApproxEquals a b = floatApproxEquals b a"
  using f64_sub_sym [of a b] by (simp add: f64_approx_iff)


lemma f64_eq_zero_cases: "f64_eq 0 0" "f64_eq f64_signbit 0"
  by (simp_all add: f64_eq_def f64_zero_not_NaN f64_val_zero)

lemma floatApproxEquals_NaN:
  "f64_isNaN a \<or> f64_isNaN b \<Longrightarrow> \<not> floatApproxEquals a b"
  by (simp add: f64_approx_iff f64_sub_NaN f64_qNaN_isNaN)

lemma f64_lt_NaN: "f64_isNaN a \<or> f64_isNaN b \<Longrightarrow> \<not> f64_lt a b"
  by (auto simp: f64_lt_def)

section \<open>Properties of valueMatches and compareValues\<close>

lemma valueMatches_Float:
  "valueMatches uf (Schema TypeFloat el) (VFloat v) (VFloat f) matchBy =
     (if matchBy = ''less_than'' then Inr (f64_ne v 0 \<and> f64_lt v f)
      else if matchBy = ''less_than_or_equal'' then
        Inr (f64_ne v 0 \<and> (f64_lt v f \<or> floatApproxEquals f v))
      else if matchBy = ''greater_than'' then Inr (f64_ne v 0 \<and> f64_gt v f)
      else if matchBy = ''greater_than_or_equal'' then
        Inr (f64_ne v 0 \<and> (f64_gt v f \<or> floatApproxEquals f v))
      else Inr (floatApproxEquals f v))"
  by (simp add: valueMatches.simps)

lemma compareValues_Float:
  "compareValues (Schema TypeFloat el) (VFloat a) (VFloat b) =
     (if floatApproxEquals a b then Inr 0
      else if f64_lt a b then Inr (- 1)
      else if f64_gt a b then Inr 1
      else Inr 0)"
  by (simp add: compareValues_def)

text \<open>
  C1. Zero-as-absent policy: when the value is exactly 0.0 (Go's \<open>val == 0.\<close>, true of
  \<open>+0\<close> and \<open>-0\<close>), valueMatches on a Float schema is false in each of the four relational
  modes, whatever the float filter.
\<close>

theorem zero_value_never_matches_relational:
  assumes "f64_eq v 0"
    and "matchBy \<in> {''less_than'', ''less_than_or_equal'', ''greater_than'',
                     ''greater_than_or_equal''}"
  shows "valueMatches uf (Schema TypeFloat el) (VFloat v) (VFloat f) matchBy = Inr False"
  using assms by (auto simp: valueMatches_Float f64_ne_def)

theorem zero_value_never_matches_relational_witness:
  "f64_eq 0 0 \<and>
   ''less_than'' \<in> {''less_than'', ''less_than_or_equal'', ''greater_than'',
                     ''greater_than_or_equal''} \<and>
   f64_lt 0 0x3FF0000000000000 \<and>
   valueMatches (\<lambda>s t. False) (Schema TypeFloat None) (VFloat 0) (VFloat 0x3FF0000000000000)
     ''less_than'' = Inr False"
proof -
  have z: "f64_eq 0 0" by (rule f64_eq_zero_cases)
  have m: "''less_than'' \<in> {''less_than'', ''less_than_or_equal'', ''greater_than'',
                     ''greater_than_or_equal''}" by simp
  have lt: "f64_lt 0 0x3FF0000000000000"
    by (simp add: f64_lt_def f64_isNaN_def f64_val_def f64_sign_def f64_mag_def f64_exp_def
        f64_frac_def)
  show ?thesis
    using z m lt zero_value_never_matches_relational [OF z m, of "\<lambda>s t. False" None "0x3FF0000000000000"]
    by simp
qed

text \<open>
  C3. Comparator hard failure: on a schema whose type tag is not String, Bool, Int or
  Float (so List, Set and every other tag), compareValues panics for every pair of
  values and returns no ordering result.
\<close>

theorem compareValues_unsupported_type_panics:
  assumes "Type s \<notin> {TypeString, TypeBool, TypeInt, TypeFloat}"
  shows "compareValues s value1 value2 =
           Inl (Panic ''Illegal state: Unsupported value type for sort'') \<and>
         (\<forall>c. compareValues s value1 value2 \<noteq> Inr c)"
  using assms by (cases "Type s") (simp_all add: compareValues_def)

theorem compareValues_unsupported_type_panics_witness:
  "Type (Schema TypeList (Some (Schema TypeInt None))) \<notin> {TypeString, TypeBool, TypeInt, TypeFloat} \<and>
   compareValues (Schema TypeList (Some (Schema TypeInt None))) (VList [VInt 1]) (VList [VInt 2]) =
     Inl (Panic ''Illegal state: Unsupported value type for sort'') \<and>
   Type (Schema TypeSet (Some (Schema TypeInt None))) \<notin> {TypeString, TypeBool, TypeInt, TypeFloat} \<and>
   compareValues (Schema TypeSet (Some (Schema TypeInt None))) (VSet [VInt 1]) (VSet [VInt 2]) =
     Inl (Panic ''Illegal state: Unsupported value type for sort'')"
  using compareValues_unsupported_type_panics
          [of "Schema TypeList (Some (Schema TypeInt None))" "VList [VInt 1]" "VList [VInt 2]"]
        compareValues_unsupported_type_panics
          [of "Schema TypeSet (Some (Schema TypeInt None))" "VSet [VInt 1]" "VSet [VInt 2]"]
  by simp

text \<open>
  C9. NaN never matches: with a NaN value, valueMatches on a Float schema is false in
  every mode (the four relational modes, the default mode and any other string); with a
  NaN filter it is false as well, and the epsilon equality \<open>floatApproxEquals(filter, val)\<close>
  used by the default mode and the "or_equal" modes is false.
\<close>

theorem NaN_never_matches:
  assumes "f64_isNaN v \<or> f64_isNaN f"
  shows "valueMatches uf (Schema TypeFloat el) (VFloat v) (VFloat f) matchBy = Inr False \<and>
         \<not> floatApproxEquals f v"
proof -
  have a: "\<not> floatApproxEquals f v"
    using assms by (intro floatApproxEquals_NaN) blast
  have l: "\<not> f64_lt v f" "\<not> f64_gt v f"
    using assms by (auto simp: f64_gt_def f64_lt_def)
  show ?thesis
    using a l by (simp add: valueMatches_Float)
qed

theorem NaN_never_matches_witness:
  "(f64_isNaN f64_qNaN \<or> f64_isNaN 0x3FF0000000000000) \<and>
   valueMatches (\<lambda>s t. False) (Schema TypeFloat None) (VFloat f64_qNaN) (VFloat 0x3FF0000000000000)
     ''less_than_or_equal'' = Inr False \<and>
   (f64_isNaN 0x3FF0000000000000 \<or> f64_isNaN f64_qNaN) \<and>
   valueMatches (\<lambda>s t. False) (Schema TypeFloat None) (VFloat 0x3FF0000000000000) (VFloat f64_qNaN)
     [] = Inr False"
  using NaN_never_matches [of f64_qNaN "0x3FF0000000000000" "\<lambda>s t. False" None "''less_than_or_equal''"]
        NaN_never_matches [of "0x3FF0000000000000" f64_qNaN "\<lambda>s t. False" None "[]"]
  by (simp add: f64_qNaN_isNaN)

text \<open>
  C10. The zero check is exact and one-sided: a value that is not equal to zero (Go's
  \<open>val != 0.\<close>) is compared with the filter in the four relational modes, however
  small it is, and the filter is never tested against zero.
\<close>

theorem nonzero_value_compared_normally:
  assumes "f64_ne v 0"
  shows "valueMatches uf (Schema TypeFloat el) (VFloat v) (VFloat f) ''less_than'' =
           Inr (f64_lt v f) \<and>
         valueMatches uf (Schema TypeFloat el) (VFloat v) (VFloat f) ''less_than_or_equal'' =
           Inr (f64_lt v f \<or> floatApproxEquals f v) \<and>
         valueMatches uf (Schema TypeFloat el) (VFloat v) (VFloat f) ''greater_than'' =
           Inr (f64_gt v f) \<and>
         valueMatches uf (Schema TypeFloat el) (VFloat v) (VFloat f) ''greater_than_or_equal'' =
           Inr (f64_gt v f \<or> floatApproxEquals f v)"
  using assms by (simp add: valueMatches_Float)

text \<open>The witness: the value \<open>1e-9\<close> with the filter \<open>1.0\<close> is less than it, and the
  values \<open>1.0\<close> and \<open>1e-9\<close> are greater than the filter \<open>0.0\<close>.\<close>

theorem nonzero_value_compared_normally_witness:
  "f64_ne 0x3E112E0BE826D695 0 \<and>
   valueMatches (\<lambda>s t. False) (Schema TypeFloat None) (VFloat 0x3E112E0BE826D695)
     (VFloat 0x3FF0000000000000) ''less_than'' = Inr True \<and>
   valueMatches (\<lambda>s t. False) (Schema TypeFloat None) (VFloat 0x3E112E0BE826D695)
     (VFloat 0) ''greater_than'' = Inr True \<and>
   f64_ne 0x3FF0000000000000 0 \<and>
   valueMatches (\<lambda>s t. False) (Schema TypeFloat None) (VFloat 0x3FF0000000000000)
     (VFloat 0) ''greater_than'' = Inr True"
proof -
  have n1: "f64_ne 0x3E112E0BE826D695 0"
    by (simp add: f64_ne_def f64_eq_def f64_isNaN_def f64_val_def f64_sign_def f64_mag_def
        f64_exp_def f64_frac_def)
  have n2: "f64_ne 0x3FF0000000000000 0"
    by (simp add: f64_ne_def f64_eq_def f64_isNaN_def f64_val_def f64_sign_def f64_mag_def
        f64_exp_def f64_frac_def)
  have l1: "f64_lt 0x3E112E0BE826D695 0x3FF0000000000000"
    by (simp add: f64_lt_def f64_isNaN_def f64_val_def f64_sign_def f64_mag_def
        f64_exp_def f64_frac_def)
  have g1: "f64_gt 0x3E112E0BE826D695 0"
    by (simp add: f64_gt_def f64_lt_def f64_isNaN_def f64_val_def f64_sign_def f64_mag_def
        f64_exp_def f64_frac_def)
  have g2: "f64_gt 0x3FF0000000000000 0"
    by (simp add: f64_gt_def f64_lt_def f64_isNaN_def f64_val_def f64_sign_def f64_mag_def
        f64_exp_def f64_frac_def)
  show ?thesis
    using n1 n2 l1 g1 g2
      nonzero_value_compared_normally [OF n1, of "\<lambda>s t. False" None "0x3FF0000000000000"]
      nonzero_value_compared_normally [OF n1, of "\<lambda>s t. False" None 0]
      nonzero_value_compared_normally [OF n2, of "\<lambda>s t. False" None 0]
    by simp
qed

lemma bitlen_bounds: "2 ^ k \<le> n \<Longrightarrow> n < 2 ^ Suc k \<Longrightarrow> bitlen n = Suc k"
proof (induction k arbitrary: n)
  case 0
  then have "n = Suc 0" by simp
  then show ?case by (simp add: bitlen.simps [of "Suc 0"] bitlen.simps [of 0])
next
  case (Suc k)
  have "2 ^ k \<le> n div 2" "n div 2 < 2 ^ Suc k"
    using Suc.prems by simp_all
  then have "bitlen (n div 2) = Suc k" by (rule Suc.IH)
  moreover have "n \<noteq> 0" using Suc.prems by auto
  ultimately show ?case by (simp add: bitlen.simps [of n])
qed

lemma f64_val_eq_mag:
  "f64_val a = f64_val b \<Longrightarrow> f64_mag a = f64_mag b \<and> (f64_mag a \<noteq> 0 \<longrightarrow> f64_sign a = f64_sign b)"
  by (auto simp: f64_val_def split: if_splits)

lemma f64_sub_equal_finite:
  assumes "\<not> f64_isNaN a" "\<not> f64_isNaN b" "\<not> f64_isInf a" "\<not> f64_isInf b"
    and "f64_val a = f64_val b"
  shows "floatApproxEquals a b"
proof -
  have "f64_sub a b = 0 \<or> f64_sub a b = f64_signbit"
    using assms by (simp add: f64_sub_def)
  then show ?thesis
    by (auto simp: f64_approx_iff f64_zero_not_NaN f64_mag_zero f64_epsilon_val)
qed

lemma f64_same_infinity:
  assumes "f64_isInf a" "f64_isInf b" "f64_sign a = f64_sign b"
  shows "\<not> floatApproxEquals a b" "\<not> f64_lt a b" "\<not> f64_gt a b"
proof -
  have "f64_sub a b = f64_qNaN"
    using assms by (simp add: f64_sub_def f64_isInf_not_NaN)
  then show "\<not> floatApproxEquals a b"
    by (simp add: f64_approx_iff f64_qNaN_isNaN)
  have "f64_val a = f64_val b"
    using assms by (simp add: f64_val_def f64_isInf_mag)
  then show "\<not> f64_lt a b" "\<not> f64_gt a b"
    by (simp_all add: f64_lt_def f64_gt_def)
qed

lemma f64_trichotomy:
  assumes "\<not> f64_isNaN a" "\<not> f64_isNaN b"
    and "\<not> (f64_isInf a \<and> f64_isInf b \<and> f64_sign a = f64_sign b)"
  shows "floatApproxEquals a b \<or> f64_lt a b \<or> f64_gt a b"
proof (cases "f64_val a = f64_val b")
  case False
  then show ?thesis using assms by (auto simp: f64_lt_def f64_gt_def)
next
  case True
  note eq = f64_val_eq_mag [OF True]
  have "\<not> f64_isInf a"
  proof
    assume i: "f64_isInf a"
    then have m: "f64_mag b = 2 ^ 2098" using eq by (simp add: f64_isInf_mag)
    then have "f64_isInf b" using f64_finite_mag [of b] assms(2) by auto
    moreover have "f64_sign a = f64_sign b" using eq i by (simp add: f64_isInf_mag)
    ultimately show False using assms(3) i by simp
  qed
  moreover have "\<not> f64_isInf b"
  proof
    assume i: "f64_isInf b"
    then have m: "f64_mag a = 2 ^ 2098" using eq by (simp add: f64_isInf_mag)
    then have "f64_isInf a" using f64_finite_mag [of a] assms(1) by auto
    moreover have "f64_sign a = f64_sign b" using eq m by simp
    ultimately show False using assms(3) i by simp
  qed
  ultimately show ?thesis using f64_sub_equal_finite [OF assms(1,2) _ _ True] by simp
qed

lemma f64_fallback_iff:
  "(\<not> floatApproxEquals a b \<and> \<not> f64_lt a b \<and> \<not> f64_gt a b) \<longleftrightarrow>
   (f64_isNaN a \<or> f64_isNaN b \<or> (f64_isInf a \<and> f64_isInf b \<and> f64_sign a = f64_sign b))"
proof
  assume "\<not> floatApproxEquals a b \<and> \<not> f64_lt a b \<and> \<not> f64_gt a b"
  then show "f64_isNaN a \<or> f64_isNaN b \<or> (f64_isInf a \<and> f64_isInf b \<and> f64_sign a = f64_sign b)"
    using f64_trichotomy [of a b] by blast
next
  assume r: "f64_isNaN a \<or> f64_isNaN b \<or> (f64_isInf a \<and> f64_isInf b \<and> f64_sign a = f64_sign b)"
  show "\<not> floatApproxEquals a b \<and> \<not> f64_lt a b \<and> \<not> f64_gt a b"
  proof (cases "f64_isNaN a \<or> f64_isNaN b")
    case True
    then show ?thesis
      using floatApproxEquals_NaN [of a b] by (auto simp: f64_lt_def f64_gt_def)
  next
    case False
    then show ?thesis using r f64_same_infinity [of a b] by blast
  qed
qed

lemma f64_posInf_fields: "f64_isInf f64_posInf" "\<not> f64_isNaN f64_posInf" "\<not> f64_sign f64_posInf"
  by (simp_all add: f64_isInf_def f64_isNaN_def f64_sign_def f64_posInf_def f64_exp_def f64_frac_def)

text \<open>
  C8 as stated fails: the fallback branch of the Float comparison is also reached by two
  equal infinities, neither of which is a NaN, because their difference is a NaN.
\<close>

theorem float_fallback_reached_by_equal_infinities:
  "(\<not> floatApproxEquals f64_posInf f64_posInf \<and> \<not> f64_lt f64_posInf f64_posInf \<and>
    \<not> f64_gt f64_posInf f64_posInf) \<and>
   \<not> (f64_isNaN f64_posInf \<or> f64_isNaN f64_posInf)"
  using f64_same_infinity [of f64_posInf f64_posInf]
  by (simp add: f64_posInf_fields)

text \<open>
  C8, amended. On a Float schema, when none of \<open>floatApproxEquals(a, b)\<close>, \<open>a < b\<close> and
  \<open>a > b\<close> holds, compareValues returns 0; that happens exactly when \<open>a\<close> or \<open>b\<close> is a
  NaN or \<open>a\<close> and \<open>b\<close> are the same infinity. compareValues on two floats never panics,
  and it returns 0 whenever either argument is a NaN.
\<close>

theorem float_compare_fallback:
  "(\<not> floatApproxEquals a b \<and> \<not> f64_lt a b \<and> \<not> f64_gt a b \<longrightarrow>
      compareValues (Schema TypeFloat el) (VFloat a) (VFloat b) = Inr 0) \<and>
   ((\<not> floatApproxEquals a b \<and> \<not> f64_lt a b \<and> \<not> f64_gt a b) \<longleftrightarrow>
      (f64_isNaN a \<or> f64_isNaN b \<or>
       (f64_isInf a \<and> f64_isInf b \<and> f64_sign a = f64_sign b))) \<and>
   (\<exists>c. compareValues (Schema TypeFloat el) (VFloat a) (VFloat b) = Inr c) \<and>
   (f64_isNaN a \<or> f64_isNaN b \<longrightarrow>
      compareValues (Schema TypeFloat el) (VFloat a) (VFloat b) = Inr 0)"
proof -
  have "f64_isNaN a \<or> f64_isNaN b \<Longrightarrow>
          \<not> floatApproxEquals a b \<and> \<not> f64_lt a b \<and> \<not> f64_gt a b"
    using f64_fallback_iff [of a b] by blast
  then show ?thesis
    using f64_fallback_iff [of a b] by (auto simp: compareValues_Float)
qed

theorem float_compare_fallback_witness:
  "(f64_isNaN f64_qNaN \<or> f64_isNaN 0x3FF0000000000000) \<and>
   (\<not> floatApproxEquals f64_qNaN 0x3FF0000000000000 \<and> \<not> f64_lt f64_qNaN 0x3FF0000000000000 \<and>
    \<not> f64_gt f64_qNaN 0x3FF0000000000000) \<and>
   compareValues (Schema TypeFloat None) (VFloat f64_qNaN) (VFloat 0x3FF0000000000000) = Inr 0"
  using float_compare_fallback [of f64_qNaN "0x3FF0000000000000" None]
  by (simp add: f64_qNaN_isNaN)

section \<open>Properties of the string functions\<close>

lemma strings_HasPrefix_iff: "strings_HasPrefix s p \<longleftrightarrow> (\<exists>q. s = p @ q)"
  by (induction s p rule: strings_HasPrefix.induct) auto

lemma strings_Contains_iff: "strings_Contains s sub \<longleftrightarrow> (\<exists>p q. s = p @ sub @ q)"
proof (induction s)
  case Nil
  then show ?case by auto
next
  case (Cons c cs)
  show ?case
  proof
    assume "strings_Contains (c # cs) sub"
    then consider "strings_HasPrefix (c # cs) sub" | "strings_Contains cs sub" by auto
    then show "\<exists>p q. c # cs = p @ sub @ q"
    proof cases
      case 1
      then obtain q where "c # cs = sub @ q" by (auto simp: strings_HasPrefix_iff)
      then have "c # cs = [] @ sub @ q" by simp
      then show ?thesis by blast
    next
      case 2
      then obtain p q where "cs = p @ sub @ q" using Cons.IH by blast
      then have "c # cs = (c # p) @ sub @ q" by simp
      then show ?thesis by blast
    qed
  next
    assume "\<exists>p q. c # cs = p @ sub @ q"
    then obtain p q where pq: "c # cs = p @ sub @ q" by blast
    show "strings_Contains (c # cs) sub"
    proof (cases p)
      case Nil
      then have "strings_HasPrefix (c # cs) sub"
        using pq by (auto simp: strings_HasPrefix_iff)
      then show ?thesis by simp
    next
      case (Cons x p')
      then have "cs = p' @ sub @ q" using pq by simp
      then have "strings_Contains cs sub" using Cons.IH by blast
      then show ?thesis by simp
    qed
  qed
qed

lemma of_char_asciiLower:
  "(of_char c :: nat) < 128 \<Longrightarrow>
   (of_char (asciiLower c) :: nat) =
     (if 65 \<le> (of_char c :: nat) \<and> (of_char c :: nat) \<le> 90 then of_char c + 32 else of_char c)"
  by (simp add: asciiLower_def)

lemma asciiFoldEq_iff:
  assumes "(of_char a :: nat) < 128" "(of_char b :: nat) < 128"
  shows "asciiFoldEq a b \<longleftrightarrow> asciiLower a = asciiLower b"
proof -
  have "asciiLower a = asciiLower b \<longleftrightarrow>
          (of_char (asciiLower a) :: nat) = of_char (asciiLower b)"
    by simp
  also have "\<dots> \<longleftrightarrow> asciiFoldEq a b"
    using assms by (auto simp: of_char_asciiLower asciiFoldEq_def Let_def min_def max_def)
  finally show ?thesis by simp
qed

lemma strings_EqualFold_ascii:
  "isASCII s \<Longrightarrow> isASCII t \<Longrightarrow>
   strings_EqualFold uf s t \<longleftrightarrow> map asciiLower s = map asciiLower t"
proof (induction uf s t rule: strings_EqualFold.induct)
  case (1 uf t)
  then show ?case by auto
next
  case (2 uf sr s)
  then show ?case by simp
next
  case (3 uf sr s tr t)
  have a: "(of_char sr :: nat) < 128" "(of_char tr :: nat) < 128" "isASCII s" "isASCII t"
    using "3.prems" by (simp_all add: isASCII_def)
  show ?case
  proof (cases "asciiFoldEq sr tr")
    case True
    then show ?thesis
      using a "3.IH" asciiFoldEq_iff [OF a(1,2)] by simp
  next
    case False
    then show ?thesis
      using a asciiFoldEq_iff [OF a(1,2)] by simp
  qed
qed

lemma valueMatches_String:
  "valueMatches uf (Schema TypeString el) (VString v) (VString f) matchBy =
     (if matchBy = ''substring'' then Inr (strings_Contains v f)
      else if matchBy = ''re'' then Inl TypeAssertion
      else Inr (strings_EqualFold uf f v))"
  by (simp add: valueMatches.simps)

lemma valueMatches_String_re:
  "valueMatches uf (Schema TypeString el) (VString v) (VRegexp re) ''re'' = Inr (re v)"
  by (simp add: valueMatches.simps)


lemma valueMatches_Int:
  "valueMatches uf (Schema TypeInt el) (VInt v) (VInt f) matchBy =
     (if matchBy = ''less_than'' then Inr (v < f)
      else if matchBy = ''less_than_or_equal'' then Inr (v \<le> f)
      else if matchBy = ''greater_than'' then Inr (v > f)
      else if matchBy = ''greater_than_or_equal'' then Inr (v \<ge> f)
      else Inr (v = f))"
  by (simp add: valueMatches.simps)




text \<open>
  C6. String matcher modes: on a String schema, "substring" mode tells whether the
  filter occurs in the value as a contiguous block; "re" mode, with a compiled pattern
  as the filter, tells whether the pattern matches the value; any other mode, the empty
  one included, is \<open>strings.EqualFold(filter, value)\<close>, which on ASCII strings is
  equality after lower-casing.
\<close>

theorem valueMatches_string_modes:
  "valueMatches uf (Schema TypeString el) (VString v) (VString f) ''substring'' =
     Inr (\<exists>p q. v = p @ f @ q) \<and>
   valueMatches uf (Schema TypeString el) (VString v) (VRegexp re) ''re'' = Inr (re v) \<and>
   (matchBy \<notin> {''substring'', ''re''} \<longrightarrow>
      valueMatches uf (Schema TypeString el) (VString v) (VString f) matchBy =
        Inr (strings_EqualFold uf f v) \<and>
      (isASCII f \<and> isASCII v \<longrightarrow>
         valueMatches uf (Schema TypeString el) (VString v) (VString f) matchBy =
           Inr (map asciiLower f = map asciiLower v)))"
  by (auto simp: valueMatches_String valueMatches_String_re strings_Contains_iff
      strings_EqualFold_ascii)

text \<open>The witness: the three examples of the specification; the pattern \<open>^a\<close> is the
  test that the string starts with \<open>a\<close>.\<close>

theorem valueMatches_string_modes_witness:
  "valueMatches (\<lambda>s t. False) (Schema TypeString None) (VString ''Hello World'')
     (VString ''World'') ''substring'' = Inr True \<and>
   valueMatches (\<lambda>s t. False) (Schema TypeString None) (VString ''abc'')
     (VRegexp (\<lambda>s. strings_HasPrefix s ''a'')) ''re'' = Inr True \<and>
   [] \<notin> {''substring'', ''re''} \<and>
   valueMatches (\<lambda>s t. False) (Schema TypeString None) (VString ''Hello'')
     (VString ''hello'') [] = Inr True"
proof -
  have c: "''Hello World'' = ''Hello '' @ ''World'' @ []" by simp
  have e: "(\<exists>p q. ''Hello World'' = p @ ''World'' @ q) = True"
    using c by blast
  have s1: "valueMatches (\<lambda>s t. False) (Schema TypeString None) (VString ''Hello World'')
     (VString ''World'') ''substring'' = Inr True"
    using valueMatches_string_modes [of "\<lambda>s t. False" None "''Hello World''" "''World''"
        "\<lambda>s. strings_HasPrefix s ''a''" "[]", THEN conjunct1]
    unfolding e .
  have "valueMatches (\<lambda>s t. False) (Schema TypeString None) (VString ''abc'')
     (VRegexp (\<lambda>s. strings_HasPrefix s ''a'')) ''re'' = Inr (strings_HasPrefix ''abc'' ''a'')"
    by (rule valueMatches_string_modes [of "\<lambda>s t. False" None "''abc''" "''World''"
        "\<lambda>s. strings_HasPrefix s ''a''" "[]", THEN conjunct2, THEN conjunct1])
  then have s2: "valueMatches (\<lambda>s t. False) (Schema TypeString None) (VString ''abc'')
     (VRegexp (\<lambda>s. strings_HasPrefix s ''a'')) ''re'' = Inr True"
    by simp
  have m: "[] \<notin> {''substring'', ''re''}" by simp
  have i: "isASCII ''hello'' \<and> isASCII ''Hello''"
    by (simp add: isASCII_def)
  have l: "(map asciiLower ''hello'' = map asciiLower ''Hello'') = True"
    by code_simp
  have s3: "valueMatches (\<lambda>s t. False) (Schema TypeString None) (VString ''Hello'')
     (VString ''hello'') [] = Inr True"
    using valueMatches_string_modes [of "\<lambda>s t. False" None "''Hello''" "''hello''"
        "\<lambda>s. strings_HasPrefix s ''a''" "[]", THEN conjunct2, THEN conjunct2, THEN mp, OF m,
        THEN conjunct2, THEN mp, OF i]
    unfolding l .
  show ?thesis using s1 s2 m s3 by blast
qed

section \<open>Collections\<close>

lemma valueMatches_panic_kind:
  "valueMatches uf s v fv m = Inl e \<Longrightarrow> e = TypeAssertion"
  "matchLoop uf s xs fv m r = Inl e \<Longrightarrow> e = TypeAssertion"
proof (induction uf s v fv m and uf s xs fv m r arbitrary: e and e
    rule: valueMatches_matchLoop.induct)
  case (1 uf s val filterValue matchBy)
  then show ?case
    by (auto simp: valueMatches.simps split: ValueType.splits iface.splits if_splits)
next
  case (2 uf s filterValue matchBy result)
  then show ?case by simp
next
  case (3 uf s listValue listValues filterValue matchBy result)
  then show ?case by (auto split: option.splits sum.splits)
qed

lemma matchLoop_None:
  "Elem s = None \<Longrightarrow>
   matchLoop uf s xs fv m r = (if xs = [] then Inr r else Inl TypeAssertion)"
  by (cases xs) simp_all

lemma matchLoop_Some:
  "Elem s = Some es \<Longrightarrow>
   matchLoop uf s xs fv m r =
     (if \<exists>x\<in>set xs. valueMatches uf es x fv m = Inl TypeAssertion then Inl TypeAssertion
      else Inr (r \<or> (\<exists>x\<in>set xs. valueMatches uf es x fv m = Inr True)))"
proof (induction xs arbitrary: r)
  case Nil
  then show ?case by simp
next
  case (Cons x xs)
  show ?case
  proof (cases "valueMatches uf es x fv m")
    case (Inl e)
    then have "e = TypeAssertion" by (rule valueMatches_panic_kind)
    then show ?thesis using Inl Cons.prems by simp
  next
    case (Inr d)
    then show ?thesis using Cons.IH [OF Cons.prems] Cons.prems by auto
  qed
qed

lemma matchLoop_perm:
  assumes "mset xs = mset ys"
  shows "matchLoop uf s xs fv m r = matchLoop uf s ys fv m r"
proof -
  have "set xs = set ys" using assms by (rule mset_eq_setD)
  moreover have "xs = [] \<longleftrightarrow> ys = []" using assms by (metis mset_zero_iff)
  ultimately show ?thesis
    by (cases "Elem s") (simp_all add: matchLoop_None matchLoop_Some)
qed

lemma valueMatches_List:
  "valueMatches uf (Schema TypeList el) (VList xs) fv m = matchLoop uf (Schema TypeList el) xs fv m False"
  by (simp add: valueMatches.simps)

lemma valueMatches_Set:
  "valueMatches uf (Schema TypeSet el) (VSet xs) fv m = matchLoop uf (Schema TypeSet el) xs fv m False"
  by (simp add: valueMatches.simps)

lemma matchLoop_all_return:
  assumes "\<forall>x\<in>set xs. \<exists>b. valueMatches uf es x fv m = Inr b"
  shows "matchLoop uf (Schema t (Some es)) xs fv m False =
           Inr (\<exists>x\<in>set xs. valueMatches uf es x fv m = Inr True)"
proof -
  have "\<not> (\<exists>x\<in>set xs. valueMatches uf es x fv m = Inl TypeAssertion)"
    using assms by fastforce
  then show ?thesis by (simp add: matchLoop_Some)
qed

text \<open>
  C5. Collection OR semantics: on a List schema, and likewise on a Set schema, when the
  match of every element returns, valueMatches is true if and only if at least one
  element matches under the same filter value and mode; an empty collection gives
  false; and the result is the same for every permutation of the elements.
\<close>

theorem collection_matches_iff_some_element_matches:
  "((\<forall>x\<in>set xs. \<exists>b. valueMatches uf es x fv m = Inr b) \<longrightarrow>
      valueMatches uf (Schema TypeList (Some es)) (VList xs) fv m =
        Inr (\<exists>x\<in>set xs. valueMatches uf es x fv m = Inr True) \<and>
      valueMatches uf (Schema TypeSet (Some es)) (VSet xs) fv m =
        Inr (\<exists>x\<in>set xs. valueMatches uf es x fv m = Inr True)) \<and>
   valueMatches uf (Schema TypeList el) (VList []) fv m = Inr False \<and>
   valueMatches uf (Schema TypeSet el) (VSet []) fv m = Inr False \<and>
   (mset xs = mset ys \<longrightarrow>
      valueMatches uf (Schema TypeList el) (VList xs) fv m =
        valueMatches uf (Schema TypeList el) (VList ys) fv m \<and>
      valueMatches uf (Schema TypeSet el) (VSet xs) fv m =
        valueMatches uf (Schema TypeSet el) (VSet ys) fv m)"
proof -
  have a: "(\<forall>x\<in>set xs. \<exists>b. valueMatches uf es x fv m = Inr b) \<longrightarrow>
      valueMatches uf (Schema TypeList (Some es)) (VList xs) fv m =
        Inr (\<exists>x\<in>set xs. valueMatches uf es x fv m = Inr True) \<and>
      valueMatches uf (Schema TypeSet (Some es)) (VSet xs) fv m =
        Inr (\<exists>x\<in>set xs. valueMatches uf es x fv m = Inr True)"
    by (simp add: valueMatches_List valueMatches_Set matchLoop_all_return)
  have b: "valueMatches uf (Schema TypeList el) (VList []) fv m = Inr False"
    "valueMatches uf (Schema TypeSet el) (VSet []) fv m = Inr False"
    by (simp_all add: valueMatches_List valueMatches_Set)
  have c: "mset xs = mset ys \<longrightarrow>
      valueMatches uf (Schema TypeList el) (VList xs) fv m =
        valueMatches uf (Schema TypeList el) (VList ys) fv m \<and>
      valueMatches uf (Schema TypeSet el) (VSet xs) fv m =
        valueMatches uf (Schema TypeSet el) (VSet ys) fv m"
    using matchLoop_perm [of xs ys] by (simp add: valueMatches_List valueMatches_Set)
  show ?thesis using a b c by blast
qed

text \<open>The witness: the list \<open>[1, 2, 3]\<close> of Int with the filter 2 in the default mode,
  and its permutation \<open>[3, 1, 2]\<close>.\<close>

theorem collection_matches_iff_some_element_matches_witness:
  "valueMatches (\<lambda>s t. False) (Schema TypeList (Some (Schema TypeInt None)))
     (VList [VInt 1, VInt 2, VInt 3]) (VInt 2) [] = Inr True \<and>
   valueMatches (\<lambda>s t. False) (Schema TypeSet (Some (Schema TypeInt None)))
     (VSet [VInt 1, VInt 2, VInt 3]) (VInt 2) [] = Inr True \<and>
   valueMatches (\<lambda>s t. False) (Schema TypeList (Some (Schema TypeInt None)))
     (VList []) (VInt 2) [] = Inr False \<and>
   mset [VInt 1, VInt 2, VInt 3] = mset [VInt 3, VInt 1, VInt 2] \<and>
   valueMatches (\<lambda>s t. False) (Schema TypeList (Some (Schema TypeInt None)))
     (VList [VInt 3, VInt 1, VInt 2]) (VInt 2) [] = Inr True"
proof -
  have h: "\<forall>x\<in>set [VInt 1, VInt 2, VInt 3].
      \<exists>b. valueMatches (\<lambda>s t. False) (Schema TypeInt None) x (VInt 2) [] = Inr b"
    by (auto simp: valueMatches_Int)
  have e: "(\<exists>x\<in>set [VInt 1, VInt 2, VInt 3].
      valueMatches (\<lambda>s t. False) (Schema TypeInt None) x (VInt 2) [] = Inr True) = True"
    by (simp add: valueMatches_Int)
  have p: "mset [VInt 1, VInt 2, VInt 3] = mset [VInt 3, VInt 1, VInt 2]"
    by simp
  note t = collection_matches_iff_some_element_matches
    [of "[VInt 1, VInt 2, VInt 3]" "\<lambda>s t. False" "Schema TypeInt None" "VInt 2" "[]"
      "Some (Schema TypeInt None)" "[VInt 3, VInt 1, VInt 2]"]
  have l: "valueMatches (\<lambda>s t. False) (Schema TypeList (Some (Schema TypeInt None)))
     (VList [VInt 1, VInt 2, VInt 3]) (VInt 2) [] = Inr True"
    "valueMatches (\<lambda>s t. False) (Schema TypeSet (Some (Schema TypeInt None)))
     (VSet [VInt 1, VInt 2, VInt 3]) (VInt 2) [] = Inr True"
    using t [THEN conjunct1, THEN mp, OF h] unfolding e by blast+
  have n: "valueMatches (\<lambda>s t. False) (Schema TypeList (Some (Schema TypeInt None)))
     (VList []) (VInt 2) [] = Inr False"
    by (rule t [THEN conjunct2, THEN conjunct1])
  have q: "valueMatches (\<lambda>s t. False) (Schema TypeList (Some (Schema TypeInt None)))
     (VList [VInt 3, VInt 1, VInt 2]) (VInt 2) [] = Inr True"
    using t [THEN conjunct2, THEN conjunct2, THEN conjunct2, THEN mp, OF p] l(1) by simp
  show ?thesis using l n p q by blast
qed

section \<open>Sorting\<close>

lemma strings_Compare_antisym: "strings_Compare a b = - strings_Compare b a"
  by (induction a b rule: strings_Compare.induct) auto

lemma compareValues_String:
  "compareValues (Schema TypeString el) (VString a) (VString b) = Inr (strings_Compare a b)"
  by (simp add: compareValues_def)

lemma compareValues_Bool:
  "compareValues (Schema TypeBool el) (VBool a) (VBool b) =
     (if a = b then Inr 0 else if \<not> a then Inr (- 1) else Inr 1)"
  by (simp add: compareValues_def)

lemma compareValues_Int:
  "compareValues (Schema TypeInt el) (VInt a) (VInt b) =
     (if a < b then Inr (- 1) else if a > b then Inr 1 else Inr 0)"
  by (simp add: compareValues_def)

lemma scalarOfType_cases:
  assumes "scalarOfType (Type s) a" "scalarOfType (Type s) b"
  obtains el x y where "s = Schema TypeString el" "a = VString x" "b = VString y"
  | el x y where "s = Schema TypeBool el" "a = VBool x" "b = VBool y"
  | el x y where "s = Schema TypeInt el" "a = VInt x" "b = VInt y"
  | el x y where "s = Schema TypeFloat el" "a = VFloat x" "b = VFloat y"
  using assms by (cases s; cases a; cases b) (auto simp: scalarOfType_def)

lemma compareValues_antisym:
  assumes "scalarOfType (Type s) a" "scalarOfType (Type s) b"
  shows "\<exists>c. compareValues s a b = Inr c \<and> compareValues s b a = Inr (- c)"
  using assms
proof (cases rule: scalarOfType_cases)
  case (1 el x y)
  then show ?thesis
    using strings_Compare_antisym [of y x] by (simp add: compareValues_String)
next
  case (2 el x y)
  then show ?thesis by (auto simp: compareValues_Bool)
next
  case (3 el x y)
  then show ?thesis by (auto simp: compareValues_Int)
next
  case (4 el x y)
  have "\<not> (f64_lt x y \<and> f64_lt y x)" by (auto simp: f64_lt_def)
  then show ?thesis
    using 4 floatApproxEquals_sym [of x y]
    by (auto simp: compareValues_Float f64_gt_def)
qed

lemma adjacentSorted_Cons:
  "adjacentSorted s (y # zs) = ((zs \<noteq> [] \<longrightarrow> inOrder s y (hd zs)) \<and> adjacentSorted s zs)"
  by (cases zs) simp_all

lemma insertSorted_scalars:
  assumes "scalarOfType (Type s) x" "\<forall>y\<in>set ys. scalarOfType (Type s) y"
  shows "\<exists>zs. insertSorted s x ys = Inr zs \<and> mset zs = add_mset x (mset ys) \<and>
              zs \<noteq> [] \<and> (hd zs = x \<or> (ys \<noteq> [] \<and> hd zs = hd ys)) \<and>
              (adjacentSorted s ys \<longrightarrow> adjacentSorted s zs)"
  using assms(2)
proof (induction ys)
  case Nil
  then show ?case by simp
next
  case (Cons y ys)
  have sy: "scalarOfType (Type s) y" using Cons.prems by simp
  obtain c where c: "compareValues s y x = Inr c" "compareValues s x y = Inr (- c)"
    using compareValues_antisym [OF sy assms(1)] by blast
  show ?case
  proof (cases "c < 0")
    case True
    obtain zs where zs: "insertSorted s x ys = Inr zs" "mset zs = add_mset x (mset ys)"
      "zs \<noteq> []" "hd zs = x \<or> (ys \<noteq> [] \<and> hd zs = hd ys)"
      "adjacentSorted s ys \<longrightarrow> adjacentSorted s zs"
      using Cons.IH Cons.prems by auto
    have r: "insertSorted s x (y # ys) = Inr (y # zs)"
      using c True zs(1) by (simp add: lessValues_def)
    have yx: "inOrder s y x" using c True by (simp add: inOrder_def)
    have "adjacentSorted s (y # ys) \<longrightarrow> adjacentSorted s (y # zs)"
      using zs(3,4,5) yx by (auto simp: adjacentSorted_Cons)
    then show ?thesis using r zs(2) by simp
  next
    case False
    have r: "insertSorted s x (y # ys) = Inr (x # y # ys)"
      using c False by (simp add: lessValues_def)
    have "inOrder s x y" using c False by (simp add: inOrder_def)
    then show ?thesis using r by simp
  qed
qed

lemma sortValues_scalars:
  assumes "\<forall>x\<in>set xs. scalarOfType (Type s) x"
  shows "\<exists>ys. sortValues s xs = Inr ys \<and> mset ys = mset xs \<and> adjacentSorted s ys"
  using assms
proof (induction xs)
  case Nil
  then show ?case by simp
next
  case (Cons x xs)
  then obtain ys where ys: "sortValues s xs = Inr ys" "mset ys = mset xs" "adjacentSorted s ys"
    by auto
  have "set ys = set xs" using ys(2) by (rule mset_eq_setD)
  then have "\<forall>y\<in>set ys. scalarOfType (Type s) y" using Cons.prems by simp
  moreover have "scalarOfType (Type s) x" using Cons.prems by simp
  ultimately obtain zs where "insertSorted s x ys = Inr zs" "mset zs = add_mset x (mset ys)"
    "adjacentSorted s ys \<longrightarrow> adjacentSorted s zs"
    using insertSorted_scalars [of s x ys] by blast
  then show ?case using ys by simp
qed

lemma adjacentSorted_nth:
  "adjacentSorted s ys \<Longrightarrow> Suc i < length ys \<Longrightarrow> inOrder s (ys ! i) (ys ! Suc i)"
proof (induction s ys arbitrary: i rule: adjacentSorted.induct)
  case (3 s x y ys)
  then show ?case by (cases i) simp_all
qed simp_all

section \<open>Remarks on the float64 model\<close>

text \<open>The values that Go's \<open>v == 0.\<close> accepts are the two zeros, \<open>+0\<close> and \<open>-0\<close>.\<close>

lemma bit_push_one:
  fixes k :: nat
  assumes "k < 64"
  shows "bit (push_bit k 1 :: 64 word) n = (n = k)"
  using assms by (auto simp: bit_simps)

lemma f64_zero_bits:
  assumes "f64_exp v = 0" "f64_frac v = 0"
  shows "v = 0 \<or> v = f64_signbit"
proof -
  have e: "take_bit 11 (drop_bit 52 v) = 0"
    using assms(1) by (simp add: f64_exp_def unat_eq_0)
  have f: "take_bit 52 v = 0"
    using assms(2) by (simp add: f64_frac_def unat_eq_0)
  have lo: "\<not> bit v n" if "n < 63" for n
  proof (cases "n < 52")
    case True
    have "bit (take_bit 52 v) n = bit v n" using True by (simp add: bit_simps)
    then show ?thesis using f by simp
  next
    case False
    then have "n - 52 < 11" "52 + (n - 52) = n" using that by simp_all
    then have "bit (take_bit 11 (drop_bit 52 v)) (n - 52) = bit v n"
      by (simp add: bit_simps)
    then show ?thesis using e by simp
  qed
  show ?thesis
  proof (cases "bit v 63")
    case True
    have "v = push_bit 63 1"
    proof (rule bit_word_eqI)
      fix n assume "n < LENGTH(64)"
      then show "bit v n = bit (push_bit 63 1 :: 64 word) n"
        using lo [of n] True bit_push_one [of 63 n]
        by (cases "n = 63") (simp_all del: push_bit_numeral push_bit_of_1)
    qed
    then show ?thesis by (simp add: f64_signbit_def)
  next
    case False
    have "v = 0"
    proof (rule bit_word_eqI)
      fix n assume "n < LENGTH(64)"
      then show "bit v n = bit (0 :: 64 word) n"
        using lo [of n] False by (cases "n = 63") auto
    qed
    then show ?thesis by simp
  qed
qed

lemma f64_eq_zero_iff: "f64_eq v 0 \<longleftrightarrow> v = 0 \<or> v = f64_signbit"
proof
  assume "f64_eq v 0"
  then have "f64_val v = 0"
    by (simp add: f64_eq_def f64_val_zero)
  then have "f64_mag v = 0"
    by (simp add: f64_val_def split: if_splits)
  then have "f64_exp v = 0 \<and> f64_frac v = 0"
    by (auto simp: f64_mag_def split: if_splits)
  then show "v = 0 \<or> v = f64_signbit" using f64_zero_bits by blast
next
  assume "v = 0 \<or> v = f64_signbit"
  then show "f64_eq v 0" using f64_eq_zero_cases by blast
qed

text \<open>
  The constant \<open>f64_epsilon\<close> is the double nearest to \<open>10^-6\<close>: in units of \<open>2^-1074\<close>
  the real \<open>10^-6\<close> is \<open>2^1074 / 10^6\<close>, the doubles around it are \<open>2^1002\<close> apart, and
  the constant is within half that distance; it lies below \<open>10^-6\<close>.
\<close>

lemma f64_epsilon_nearest:
  "2 * \<bar>f64_val f64_epsilon * 10 ^ 6 - 2 ^ 1074\<bar> \<le> 10 ^ 6 * 2 ^ 1002"
  "f64_val f64_epsilon * 10 ^ 6 < 2 ^ 1074"
  by (simp_all add: f64_epsilon_val)

section \<open>The tolerance of floatApproxEquals\<close>

text \<open>
  The rounded difference of two finite floats is below the double \<open>0.000001\<close> exactly
  when the exact difference is at most half a unit in the last place below it.
\<close>

lemma bitlen_spec:
  assumes "0 < n"
  shows "2 ^ (bitlen n - 1) \<le> n \<and> n < 2 ^ bitlen n"
proof -
  obtain k where k: "2 ^ k \<le> n" "n < 2 ^ (k + 1)"
    using ex_power_ivl1 [of 2 n] assms by auto
  then have "bitlen n = Suc k" using bitlen_bounds [of k n] by simp
  then show ?thesis using k by simp
qed

lemma f64_fields_of_nat:
  assumes "n < 2047 * 2 ^ 52"
  shows "f64_exp (word_of_nat n) = n div 2 ^ 52" "f64_frac (word_of_nat n) = n mod 2 ^ 52"
proof -
  have "n < 2 ^ 64" using assms by simp
  then have u: "unat (word_of_nat n :: 64 word) = n"
    by (simp add: unat_of_nat)
  have d: "n div 2 ^ 52 < 2 ^ 11"
    using assms by (simp add: div_less_iff_less_mult)
  have "unat (take_bit 11 (drop_bit 52 (word_of_nat n :: 64 word))) =
          take_bit 11 (unat (drop_bit 52 (word_of_nat n :: 64 word)))"
    by (rule unsigned_take_bit_eq)
  also have "\<dots> = take_bit 11 (drop_bit 52 n)"
    by (simp only: unat_drop_bit_eq u)
  also have "\<dots> = (n div 2 ^ 52) mod 2 ^ 11"
    by (simp only: take_bit_eq_mod drop_bit_eq_div)
  also have "\<dots> = n div 2 ^ 52" using d by simp
  finally show "f64_exp (word_of_nat n) = n div 2 ^ 52"
    by (simp only: f64_exp_def)
  have "unat (take_bit 52 (word_of_nat n :: 64 word)) = take_bit 52 (unat (word_of_nat n :: 64 word))"
    by (rule unsigned_take_bit_eq)
  also have "\<dots> = n mod 2 ^ 52"
    by (simp only: u take_bit_eq_mod)
  finally show "f64_frac (word_of_nat n) = n mod 2 ^ 52"
    by (simp only: f64_frac_def)
qed

lemma f64_mag_rounded:
  assumes "1 \<le> k" "2 ^ 52 \<le> q'" "q' \<le> 2 ^ 53" "k * 2 ^ 52 + q' < 2047 * 2 ^ 52"
  shows "\<not> f64_isNaN (word_of_nat (k * 2 ^ 52 + q'))"
    and "f64_mag (word_of_nat (k * 2 ^ 52 + q')) = q' * 2 ^ k"
proof -
  let ?n = "k * 2 ^ 52 + q'"
  note f = f64_fields_of_nat [OF assms(4)]
  have e: "?n div 2 ^ 52 < 2047" using assms(4) by (simp add: div_less_iff_less_mult)
  show "\<not> f64_isNaN (word_of_nat ?n)"
    unfolding f64_isNaN_def f using e by simp
  show "f64_mag (word_of_nat ?n) = q' * 2 ^ k"
  proof (cases "q' = 2 ^ 53")
    case True
    have "?n = (k + 2) * 2 ^ 52 + 0" using True by simp
    then have dm: "?n div 2 ^ 52 = k + 2" "?n mod 2 ^ 52 = 0" by simp_all
    have "f64_mag (word_of_nat ?n) = 2 ^ 52 * 2 ^ (k + 1)"
      unfolding f64_mag_def f dm by simp
    then show ?thesis using True by simp
  next
    case False
    define g where "g = q' - 2 ^ 52"
    have g: "g < 2 ^ 52" "q' = 2 ^ 52 + g" using assms(2,3) False by (simp_all add: g_def)
    have "?n = (k + 1) * 2 ^ 52 + g" using g(2) by simp
    then have dm: "?n div 2 ^ 52 = k + 1" "?n mod 2 ^ 52 = g" using g(1) by simp_all
    have "f64_mag (word_of_nat ?n) = (2 ^ 52 + g) * 2 ^ k"
      unfolding f64_mag_def f dm by simp
    then show ?thesis using g(2) by simp
  qed
qed

lemma f64_mag_small:
  assumes "m < 2 ^ 53"
  shows "\<not> f64_isNaN (word_of_nat m)" and "f64_mag (word_of_nat m) = m"
proof -
  have b: "m < 2047 * 2 ^ 52" using assms by simp
  note f = f64_fields_of_nat [OF b]
  have e: "m div 2 ^ 52 < 2" using assms by (simp add: div_less_iff_less_mult)
  show "\<not> f64_isNaN (word_of_nat m)" unfolding f64_isNaN_def f using e by simp
  show "f64_mag (word_of_nat m) = m"
  proof (cases "m div 2 ^ 52 = 0")
    case True
    then have "m mod 2 ^ 52 = m" by (simp add: div_eq_0_iff)
    then show ?thesis unfolding f64_mag_def f using True by simp
  next
    case False
    then have o: "m div 2 ^ 52 = 1" using e by simp
    have "m = 2 ^ 52 * (m div 2 ^ 52) + m mod 2 ^ 52" by simp
    then have "m = 2 ^ 52 + m mod 2 ^ 52" unfolding o by simp
    then show ?thesis unfolding f64_mag_def f using o by simp
  qed
qed

lemma f64_round_cases:
  assumes "0 < m"
  obtains (small) "m < 2 ^ 53" "f64_round m = word_of_nat m"
  | (big) k q r q' where "1 \<le> k" "2 ^ 52 \<le> q" "q < 2 ^ 53" "r < 2 ^ k" "m = q * 2 ^ k + r"
      "q' = (if 2 ^ (k - 1) < r \<or> (r = 2 ^ (k - 1) \<and> odd q) then q + 1 else q)"
      "f64_round m = (if 2047 * 2 ^ 52 \<le> k * 2 ^ 52 + q' then f64_posInf
                      else word_of_nat (k * 2 ^ 52 + q'))"
proof (cases "m < 2 ^ 53")
  case True
  then show ?thesis using small by (simp add: f64_round_def)
next
  case False
  define k where "k = bitlen m - 53"
  define q where "q = m div 2 ^ k"
  define r where "r = m mod 2 ^ k"
  define q' where "q' = (if 2 ^ (k - 1) < r \<or> (r = 2 ^ (k - 1) \<and> odd q) then q + 1 else q)"
  have bl: "2 ^ (bitlen m - 1) \<le> m" "m < 2 ^ bitlen m"
    using bitlen_spec [OF assms] by simp_all
  have "(2::nat) ^ 53 < 2 ^ bitlen m" using False bl(2) by simp
  then have "53 < bitlen m" by (rule power_less_imp_less_exp [rotated]) simp
  then have k: "1 \<le> k" "bitlen m = k + 53" by (simp_all add: k_def)
  have lo: "2 ^ 52 * 2 ^ k \<le> m" using bl(1) k(2) by (simp add: power_add mult.commute)
  have hi: "m < 2 ^ 53 * 2 ^ k" using bl(2) k(2) by (simp add: power_add mult.commute)
  have q1: "2 ^ 52 \<le> q" unfolding q_def using lo by (simp add: less_eq_div_iff_mult_less_eq)
  have q2: "q < 2 ^ 53" unfolding q_def using hi by (simp add: div_less_iff_less_mult)
  have r: "r < 2 ^ k" by (simp add: r_def)
  have m: "m = q * 2 ^ k + r" unfolding q_def r_def by (rule div_mult_mod_eq [symmetric])
  have fr: "f64_round m = (if 2047 * 2 ^ 52 \<le> k * 2 ^ 52 + q' then f64_posInf
                      else word_of_nat (k * 2 ^ 52 + q'))"
    using False unfolding f64_round_def Let_def k_def q_def r_def q'_def by (simp only: if_False)
  show ?thesis by (rule big [OF k(1) q1 q2 r m q'_def fr])
qed

lemma round_threshold_core:
  fixes A P h H q r q' k K :: nat
  assumes A: "A = 2 * h" and P: "P = 2 * H" and H: "0 < H"
    and lt: "k < K \<Longrightarrow> 2 * A \<le> P" and eq: "k = K \<Longrightarrow> A = P" and gt: "K < k \<Longrightarrow> 2 * P \<le> A"
    and K: "K \<le> 2040" and q: "2 ^ 52 \<le> q" "q < 2 ^ 53" and r: "r < A"
    and q': "q' = (if h < r \<or> (r = h \<and> odd q) then q + 1 else q)"
  shows "(k * 2 ^ 52 + q' < 2047 * 2 ^ 52 \<and> q' * A < 4722366482869645 * P) \<longleftrightarrow>
         q * A + r \<le> 4722366482869644 * P + H"
proof -
  have qb: "q \<le> q'" "q' \<le> q + 1" by (simp_all add: q')
  have q53: "q' \<le> 9007199254740992" using qb q by simp
  have q52: "4503599627370496 \<le> q" using q by simp
  consider (less) "k < K" | (equal) "k = K" | (greater) "K < k" by linarith
  then show ?thesis
  proof cases
    case less
    have ov: "k * 2 ^ 52 + q' < 2047 * 2 ^ 52" using less K q53 by simp
    have 1: "q' * A \<le> 9007199254740992 * A" using q53 by (rule mult_le_mono1)
    have 2: "(q + 1) * A \<le> 9007199254740992 * A" using q by (intro mult_le_mono1) simp
    have 3: "(q + 1) * A = q * A + A" by simp
    have "q' * A < 4722366482869645 * P" using 1 lt [OF less] H P by linarith
    moreover have "q * A + r \<le> 4722366482869644 * P + H" using 2 3 r lt [OF less] by linarith
    ultimately show ?thesis using ov by simp
  next
    case equal
    have AP: "A = P" "h = H" using eq [OF equal] A P by simp_all
    have ov: "k * 2 ^ 52 + q' < 2047 * 2 ^ 52" using equal K q53 by simp
    consider (a) "q + 1 < 4722366482869645" | (b) "q = 4722366482869644" | (c) "4722366482869645 \<le> q"
      by linarith
    then show ?thesis
    proof cases
      case a
      have "q' < 4722366482869645" using a qb by simp
      then have 1: "q' * P < 4722366482869645 * P" using H P by simp
      have 2: "(q + 1) * P \<le> 4722366482869644 * P" using a by (intro mult_le_mono1) simp
      have 3: "(q + 1) * P = q * P + P" by simp
      have "q * P + r \<le> 4722366482869644 * P + H" using 2 3 r AP by linarith
      then show ?thesis using 1 ov AP by simp
    next
      case b
      have e: "even q" unfolding b by simp
      have q'': "q' = (if H < r then q + 1 else q)" using q' e AP by simp
      show ?thesis
      proof (cases "H < r")
        case True
        then have "q' = 4722366482869645" using q'' b by simp
        then show ?thesis using True b AP by simp
      next
        case False
        then have "q' = 4722366482869644" using q'' b by simp
        then show ?thesis using False b AP ov H P by simp
      qed
    next
      case c
      have "4722366482869645 \<le> q'" using c qb by simp
      then have 1: "4722366482869645 * P \<le> q' * P" by (rule mult_le_mono1)
      have 2: "4722366482869645 * P \<le> q * P" using c by (rule mult_le_mono1)
      have "\<not> q' * A < 4722366482869645 * P" unfolding AP(1) using 1 by linarith
      moreover have "\<not> q * A + r \<le> 4722366482869644 * P + H"
        unfolding AP(1) using 2 H P by linarith
      ultimately show ?thesis by simp
    qed
  next
    case greater
    have 1: "4503599627370496 * A \<le> q' * A" using q52 qb by (intro mult_le_mono1) simp
    have 2: "4503599627370496 * A \<le> q * A" using q52 by (rule mult_le_mono1)
    have "\<not> q' * A < 4722366482869645 * P" using 1 gt [OF greater] H P by linarith
    moreover have "\<not> q * A + r \<le> 4722366482869644 * P + H" using 2 gt [OF greater] H P by linarith
    ultimately show ?thesis by simp
  qed
qed

lemma round_threshold:
  fixes k q r q' :: nat
  assumes "1 \<le> k" "2 ^ 52 \<le> q" "q < 2 ^ 53" "r < 2 ^ k"
    and "q' = (if 2 ^ (k - 1) < r \<or> (r = 2 ^ (k - 1) \<and> odd q) then q + 1 else q)"
  shows "(k * 2 ^ 52 + q' < 2047 * 2 ^ 52 \<and> q' * 2 ^ k < 4722366482869645 * 2 ^ 1002) \<longleftrightarrow>
         q * 2 ^ k + r \<le> 4722366482869644 * 2 ^ 1002 + 2 ^ 1001"
proof (rule round_threshold_core [where k = k and K = 1002 and h = "2 ^ (k - 1)"])
  show "(2::nat) ^ k = 2 * 2 ^ (k - 1)" using assms(1) by (cases k) simp_all
  show "(2::nat) ^ 1002 = 2 * 2 ^ 1001" by simp
  show "0 < (2::nat) ^ 1001" by simp
  show "2 * 2 ^ k \<le> (2::nat) ^ 1002" if "k < 1002"
  proof -
    have "(2::nat) ^ Suc k \<le> 2 ^ 1002" using that by (intro power_increasing) simp_all
    then show ?thesis by simp
  qed
  show "(2::nat) ^ k = 2 ^ 1002" if "k = 1002" using that by simp
  show "2 * 2 ^ 1002 \<le> (2::nat) ^ k" if "1002 < k"
  proof -
    have "(2::nat) ^ Suc 1002 \<le> 2 ^ k" using that by (intro power_increasing) simp_all
    then show ?thesis by simp
  qed
  show "(1002::nat) \<le> 2040" by simp
qed (use assms in simp_all)

lemma f64_round_below_epsilon:
  assumes "0 < m"
  shows "\<not> f64_isNaN (f64_round m) \<and>
         (f64_mag (f64_round m) < 4722366482869645 * 2 ^ 1002 \<longleftrightarrow>
          m \<le> 4722366482869644 * 2 ^ 1002 + 2 ^ 1001)"
  using assms
proof (cases rule: f64_round_cases)
  case small
  have "m < 4722366482869645 * 2 ^ 1002" "m \<le> 4722366482869644 * 2 ^ 1002 + 2 ^ 1001"
    using small(1) by simp_all
  then show ?thesis
    unfolding small(2) using f64_mag_small [OF small(1)] by simp
next
  case (big k q r q')
  note th = round_threshold [OF big(1,2,3,4,6)]
  have qb: "2 ^ 52 \<le> q'" "q' \<le> 2 ^ 53" using big(2,3) by (simp_all add: big(6))
  show ?thesis
  proof (cases "2047 * 2 ^ 52 \<le> k * 2 ^ 52 + q'")
    case True
    then have fr: "f64_round m = f64_posInf" by (simp only: big(7) if_True)
    have "\<not> f64_mag f64_posInf < 4722366482869645 * 2 ^ 1002"
      by (simp add: f64_isInf_mag [OF f64_posInf_fields(1)])
    moreover have "\<not> m \<le> 4722366482869644 * 2 ^ 1002 + 2 ^ 1001"
      using th True unfolding big(5) by linarith
    ultimately show ?thesis unfolding fr using f64_posInf_fields(2) by blast
  next
    case False
    then have ov: "k * 2 ^ 52 + q' < 2047 * 2 ^ 52" by simp
    have fr: "f64_round m = word_of_nat (k * 2 ^ 52 + q')"
      using False by (simp only: big(7) if_False)
    note mg = f64_mag_rounded [OF big(1) qb ov]
    show ?thesis unfolding fr mg(2) using mg(1) th ov unfolding big(5) by blast
  qed
qed

lemma floatApproxEquals_exact:
  assumes "\<not> f64_isNaN a" "\<not> f64_isInf a" "\<not> f64_isNaN b" "\<not> f64_isInf b"
  shows "floatApproxEquals a b \<longleftrightarrow>
         \<bar>f64_val a - f64_val b\<bar> \<le> f64_val f64_epsilon - 2 ^ 1001"
proof -
  define EM :: nat where "EM = 4722366482869645 * 2 ^ 1002"
  define NM :: nat where "NM = 4722366482869644 * 2 ^ 1002 + 2 ^ 1001"
  define d where "d = f64_val a - f64_val b"
  have E: "f64_val f64_epsilon = int EM" by (simp add: f64_epsilon_val EM_def)
  have N: "f64_val f64_epsilon - 2 ^ 1001 = int NM" by (simp add: f64_epsilon_val NM_def)
  have rnd: "\<not> f64_isNaN (f64_round m) \<and> (f64_mag (f64_round m) < EM \<longleftrightarrow> m \<le> NM)"
    if "0 < m" for m
    unfolding EM_def NM_def using f64_round_below_epsilon [OF that] .
  show ?thesis
  proof (cases "d = 0")
    case True
    then have "floatApproxEquals a b"
      using f64_sub_equal_finite [OF assms(1,3,2,4)] by (simp add: d_def)
    moreover have "\<bar>d\<bar> \<le> int NM" using True by simp
    ultimately show ?thesis unfolding N d_def [symmetric] by simp
  next
    case False
    define m where "m = nat \<bar>d\<bar>"
    have m: "0 < m" "int m = \<bar>d\<bar>" using False by (simp_all add: m_def)
    have sub: "f64_sub a b = f64_round m \<or> f64_sub a b = f64_round m OR f64_signbit"
    proof (cases "d < 0")
      case True
      then have "m = nat (- d)" by (simp add: m_def)
      then show ?thesis using assms False True
        by (simp add: f64_sub_def Let_def d_def [symmetric])
    next
      case False
      then have "m = nat d" by (simp add: m_def)
      then show ?thesis using assms \<open>d \<noteq> 0\<close> False
        by (simp add: f64_sub_def Let_def d_def [symmetric])
    qed
    have nm: "f64_isNaN (f64_sub a b) = f64_isNaN (f64_round m)"
      "f64_mag (f64_sub a b) = f64_mag (f64_round m)"
      using sub by (auto simp: f64_isNaN_or f64_mag_or)
    have "floatApproxEquals a b \<longleftrightarrow> f64_mag (f64_round m) < EM"
      unfolding f64_approx_iff nm E using rnd [OF m(1)] by simp
    also have "\<dots> \<longleftrightarrow> m \<le> NM" using rnd [OF m(1)] by simp
    also have "\<dots> \<longleftrightarrow> int m \<le> int NM" by simp
    finally show ?thesis unfolding N m(2) d_def .
  qed
qed

lemma compareValues_Float_finite:
  assumes "\<not> f64_isNaN a" "\<not> f64_isInf a" "\<not> f64_isNaN b" "\<not> f64_isInf b"
  shows "compareValues (Schema TypeFloat el) (VFloat a) (VFloat b) =
           (if \<bar>f64_val a - f64_val b\<bar> \<le> f64_val f64_epsilon - 2 ^ 1001 then Inr 0
            else if f64_val a < f64_val b then Inr (- 1) else Inr 1)"
proof (cases "floatApproxEquals a b")
  case True
  then show ?thesis
    using floatApproxEquals_exact [OF assms] by (simp add: compareValues_Float)
next
  case False
  then have "f64_lt a b \<or> f64_gt a b"
    using f64_trichotomy [of a b] assms by blast
  then show ?thesis
    using False floatApproxEquals_exact [OF assms] assms
    by (auto simp: compareValues_Float f64_lt_def f64_gt_def)
qed

text \<open>
  C2 as stated fails: the double \<open>0.000001\<close> and \<open>0.0\<close> differ by less than \<open>10^-6\<close>
  (the double lies below the real number \<open>10^-6\<close>; values are in units of \<open>2^-1074\<close>), yet
  valueMatches is false in the default mode and compareValues is 1: the test is made on
  the rounded difference and against the double.
\<close>

theorem difference_below_1e6_not_approx_equal:
  "\<bar>f64_val 0x3EB0C6F7A0B5ED8D - f64_val 0\<bar> * 10 ^ 6 < 2 ^ 1074 \<and>
   valueMatches (\<lambda>s t. False) (Schema TypeFloat None) (VFloat 0x3EB0C6F7A0B5ED8D) (VFloat 0) [] =
     Inr False \<and>
   compareValues (Schema TypeFloat None) (VFloat 0x3EB0C6F7A0B5ED8D) (VFloat 0) = Inr 1"
proof -
  have f: "\<not> f64_isNaN 0x3EB0C6F7A0B5ED8D" "\<not> f64_isInf 0x3EB0C6F7A0B5ED8D" "\<not> f64_isInf 0"
    by (simp_all add: f64_isNaN_def f64_isInf_def f64_exp_def f64_frac_def)
  have v: "f64_val 0x3EB0C6F7A0B5ED8D = 4722366482869645 * 2 ^ 1002"
    using f64_epsilon_val by (simp add: f64_epsilon_def)
  have n: "\<not> floatApproxEquals 0 0x3EB0C6F7A0B5ED8D"
    using floatApproxEquals_exact [OF f64_zero_not_NaN(1) f(3) f(1,2)]
    by (simp add: v f64_val_zero f64_epsilon_val)
  show ?thesis
    using n by (simp add: valueMatches_Float compareValues_Float_finite f f64_zero_not_NaN
        v f64_val_zero f64_epsilon_val)
qed

text \<open>
  C2, amended. For all finite floats \<open>a\<close> and \<open>b\<close>, valueMatches on a Float schema with
  value \<open>a\<close>, filter \<open>b\<close> and the default (empty) mode is true, and compareValues is 0,
  exactly when the exact difference satisfies \<open>|a - b| <= 0.000001 - 2^-73\<close>, where
  \<open>0.000001\<close> is the double nearest to \<open>10^-6\<close> and \<open>2^-73\<close> is half the distance to the
  next double below it: these are the differences that round to less than that double.
  In particular both hold whenever \<open>|a - b| <= 10^-6 - 2^-72\<close>. Values are in units of
  \<open>2^-1074\<close>.
\<close>

theorem approx_equal_floats_match_and_compare_equal:
  assumes "\<not> f64_isNaN a" "\<not> f64_isInf a" "\<not> f64_isNaN b" "\<not> f64_isInf b"
  shows
    "valueMatches uf (Schema TypeFloat el) (VFloat a) (VFloat b) [] =
       Inr (\<bar>f64_val a - f64_val b\<bar> \<le> f64_val f64_epsilon - 2 ^ 1001) \<and>
     (compareValues (Schema TypeFloat el) (VFloat a) (VFloat b) = Inr 0 \<longleftrightarrow>
        \<bar>f64_val a - f64_val b\<bar> \<le> f64_val f64_epsilon - 2 ^ 1001) \<and>
     (\<bar>f64_val a - f64_val b\<bar> * 10 ^ 6 \<le> 2 ^ 1074 - 10 ^ 6 * 2 ^ 1002 \<longrightarrow>
        valueMatches uf (Schema TypeFloat el) (VFloat a) (VFloat b) [] = Inr True \<and>
        compareValues (Schema TypeFloat el) (VFloat a) (VFloat b) = Inr 0)"
proof -
  let ?B = "\<bar>f64_val a - f64_val b\<bar> \<le> f64_val f64_epsilon - 2 ^ 1001"
  have "floatApproxEquals b a = floatApproxEquals a b" by (rule floatApproxEquals_sym)
  then have m: "valueMatches uf (Schema TypeFloat el) (VFloat a) (VFloat b) [] = Inr ?B"
    using floatApproxEquals_exact [OF assms] by (simp add: valueMatches_Float)
  have c: "compareValues (Schema TypeFloat el) (VFloat a) (VFloat b) = Inr 0 \<longleftrightarrow> ?B"
    by (simp add: compareValues_Float_finite [OF assms])
  have s: "?B" if "\<bar>f64_val a - f64_val b\<bar> * 10 ^ 6 \<le> 2 ^ 1074 - 10 ^ 6 * 2 ^ 1002"
    using that by (simp add: f64_epsilon_val)
  show ?thesis using m c s by simp
qed

text \<open>The witness: \<open>a = 1.0\<close> and \<open>b = 1.0000001\<close>, whose exact difference is about
  \<open>1.0e-7\<close>.\<close>

theorem approx_equal_floats_match_and_compare_equal_witness:
  "\<not> f64_isNaN 0x3FF0000000000000 \<and> \<not> f64_isInf 0x3FF0000000000000 \<and>
   \<not> f64_isNaN 0x3FF000001AD7F29B \<and> \<not> f64_isInf 0x3FF000001AD7F29B \<and>
   valueMatches (\<lambda>s t. False) (Schema TypeFloat None) (VFloat 0x3FF0000000000000)
     (VFloat 0x3FF000001AD7F29B) [] = Inr True \<and>
   compareValues (Schema TypeFloat None) (VFloat 0x3FF0000000000000)
     (VFloat 0x3FF000001AD7F29B) = Inr 0"
proof -
  have f: "\<not> f64_isNaN 0x3FF0000000000000" "\<not> f64_isInf 0x3FF0000000000000"
    "\<not> f64_isNaN 0x3FF000001AD7F29B" "\<not> f64_isInf 0x3FF000001AD7F29B"
    by (simp_all add: f64_isNaN_def f64_isInf_def f64_exp_def f64_frac_def)
  have d: "\<bar>f64_val 0x3FF0000000000000 - f64_val 0x3FF000001AD7F29B\<bar> * 10 ^ 6 \<le>
           2 ^ 1074 - 10 ^ 6 * 2 ^ 1002"
    by (simp add: f64_val_def f64_sign_def f64_mag_def f64_exp_def f64_frac_def)
  show ?thesis
    using f approx_equal_floats_match_and_compare_equal [OF f, of "\<lambda>s t. False" None,
        THEN conjunct2, THEN conjunct2, THEN mp, OF d]
    by blast
qed

section \<open>Sortedness after sorting\<close>

lemma inOrder_iff: "inOrder s a b \<longleftrightarrow> (\<exists>c. compareValues s a b = Inr c \<and> c \<le> 0)"
  by (auto simp: inOrder_def split: sum.splits)

lemma strings_Compare_trans:
  "strings_Compare a b \<le> 0 \<Longrightarrow> strings_Compare b c \<le> 0 \<Longrightarrow> strings_Compare a c \<le> 0"
proof (induction a arbitrary: b c)
  case Nil
  then show ?case by (cases c) simp_all
next
  case (Cons x a)
  show ?case
  proof (cases b)
    case Nil
    then show ?thesis using Cons.prems by simp
  next
    case b: (Cons y b')
    show ?thesis
    proof (cases c)
      case Nil
      then show ?thesis using Cons.prems b by (simp split: if_splits)
    next
      case c: (Cons z c')
      show ?thesis
        using Cons.prems Cons.IH [of b' c'] unfolding b c
        by (auto split: if_splits)
    qed
  qed
qed

lemma inOrder_trans:
  assumes "Type s \<noteq> TypeFloat"
    and "scalarOfType (Type s) a" "scalarOfType (Type s) b" "scalarOfType (Type s) c"
    and "inOrder s a b" "inOrder s b c"
  shows "inOrder s a c"
  using assms(2,3)
proof (cases rule: scalarOfType_cases)
  case (1 el x y)
  then obtain z where "c = VString z"
    using assms(4) by (cases c) (simp_all add: scalarOfType_def)
  then show ?thesis
    using 1 assms(5,6) strings_Compare_trans [of x y z]
    by (simp add: inOrder_def compareValues_String)
next
  case (2 el x y)
  then obtain z where "c = VBool z"
    using assms(4) by (cases c) (simp_all add: scalarOfType_def)
  then show ?thesis
    using 2 assms(5,6) by (auto simp: inOrder_def compareValues_Bool split: if_splits)
next
  case (3 el x y)
  then obtain z where "c = VInt z"
    using assms(4) by (cases c) (simp_all add: scalarOfType_def)
  then show ?thesis
    using 3 assms(5,6) by (auto simp: inOrder_def compareValues_Int split: if_splits)
next
  case (4 el x y)
  then show ?thesis using assms(1) by simp
qed

lemma adjacentSorted_iff_nth:
  "adjacentSorted s ys \<longleftrightarrow> (\<forall>i. Suc i < length ys \<longrightarrow> inOrder s (ys ! i) (ys ! Suc i))"
proof
  assume "adjacentSorted s ys"
  then show "\<forall>i. Suc i < length ys \<longrightarrow> inOrder s (ys ! i) (ys ! Suc i)"
    using adjacentSorted_nth by blast
next
  assume "\<forall>i. Suc i < length ys \<longrightarrow> inOrder s (ys ! i) (ys ! Suc i)"
  then show "adjacentSorted s ys"
  proof (induction s ys rule: adjacentSorted.induct)
    case (3 s x y ys)
    have "inOrder s x y" using "3.prems" [rule_format, of 0] by simp
    moreover have "\<forall>i. Suc i < length (y # ys) \<longrightarrow> inOrder s ((y # ys) ! i) ((y # ys) ! Suc i)"
      using "3.prems" [rule_format, of "Suc i" for i] by simp
    ultimately show ?case using "3.IH" by simp
  qed simp_all
qed

lemma sorted_wrt_adjacentSorted: "sorted_wrt (inOrder s) ys \<Longrightarrow> adjacentSorted s ys"
  by (induction s ys rule: adjacentSorted.induct) simp_all

lemma adjacentSorted_sorted_wrt:
  assumes "Type s \<noteq> TypeFloat" "\<forall>y\<in>set ys. scalarOfType (Type s) y" "adjacentSorted s ys"
  shows "sorted_wrt (inOrder s) ys"
  using assms(2,3)
proof (induction ys)
  case Nil
  then show ?case by simp
next
  case (Cons x ys)
  have t: "adjacentSorted s ys" using Cons.prems(2) by (simp add: adjacentSorted_Cons)
  then have sw: "sorted_wrt (inOrder s) ys" using Cons.IH Cons.prems(1) by simp
  have "inOrder s x y" if "y \<in> set ys" for y
  proof (cases ys)
    case Nil
    then show ?thesis using that by simp
  next
    case (Cons z zs)
    have xz: "inOrder s x z" using Cons.prems(2) Cons by simp
    show ?thesis
    proof (cases "y = z")
      case True
      then show ?thesis using xz by simp
    next
      case False
      then have "inOrder s z y" using sw that Cons by auto
      then show ?thesis
        using inOrder_trans [OF assms(1) _ _ _ xz] Cons.prems(1) Cons that by auto
    qed
  qed
  then show ?case using sw by simp
qed

lemma partition3_scalars:
  assumes "scalarOfType (Type s) p" "\<forall>x\<in>set xs. scalarOfType (Type s) x"
  shows "\<exists>ls es gs. partition3 s p xs = Inr (ls, es, gs) \<and>
           mset ls + mset es + mset gs = mset xs \<and>
           (\<forall>l\<in>set ls. inOrder s l p) \<and>
           (\<forall>e\<in>set es. inOrder s e p \<and> inOrder s p e) \<and>
           (\<forall>g\<in>set gs. inOrder s p g)"
  using assms(2)
proof (induction xs)
  case Nil
  then show ?case by simp
next
  case (Cons x xs)
  obtain ls es gs where r: "partition3 s p xs = Inr (ls, es, gs)"
    "mset ls + mset es + mset gs = mset xs"
    "\<forall>l\<in>set ls. inOrder s l p" "\<forall>e\<in>set es. inOrder s e p \<and> inOrder s p e"
    "\<forall>g\<in>set gs. inOrder s p g"
    using Cons.IH Cons.prems by auto
  have "scalarOfType (Type s) x" using Cons.prems by simp
  then obtain c where c: "compareValues s x p = Inr c" "compareValues s p x = Inr (- c)"
    using compareValues_antisym [OF _ assms(1)] by blast
  consider "c < 0" | "c = 0" | "0 < c" by linarith
  then show ?case
  proof cases
    case 1
    then have "partition3 s p (x # xs) = Inr (x # ls, es, gs)" using c r(1) by simp
    moreover have "inOrder s x p" using c 1 by (simp add: inOrder_def)
    ultimately show ?thesis using r by simp
  next
    case 2
    then have "partition3 s p (x # xs) = Inr (ls, x # es, gs)" using c r(1) by simp
    moreover have "inOrder s x p" "inOrder s p x" using c 2 by (simp_all add: inOrder_def)
    ultimately show ?thesis using r by simp
  next
    case 3
    then have "partition3 s p (x # xs) = Inr (ls, es, x # gs)" using c r(1) by simp
    moreover have "inOrder s p x" using c 3 by (simp add: inOrder_def)
    ultimately show ?thesis using r by simp
  qed
qed

lemma quickSortValues_scalars:
  assumes "Type s \<noteq> TypeFloat"
  shows "\<forall>x\<in>set xs. scalarOfType (Type s) x \<Longrightarrow>
         \<exists>ys. quickSortValues s xs = Inr ys \<and> mset ys = mset xs \<and> sorted_wrt (inOrder s) ys"
proof (induction xs rule: length_induct)
  case (1 xs)
  show ?case
  proof (cases xs)
    case Nil
    then show ?thesis by simp
  next
    case (Cons p xs')
    have tp: "scalarOfType (Type s) p" and tx: "\<forall>x\<in>set xs'. scalarOfType (Type s) x"
      using "1.prems" Cons by simp_all
    obtain ls es gs where r: "partition3 s p xs' = Inr (ls, es, gs)"
      "mset ls + mset es + mset gs = mset xs'"
      "\<forall>l\<in>set ls. inOrder s l p" "\<forall>e\<in>set es. inOrder s e p \<and> inOrder s p e"
      "\<forall>g\<in>set gs. inOrder s p g"
      using partition3_scalars [OF tp tx] by blast
    have sets: "set ls \<union> set es \<union> set gs = set xs'"
      using r(2) by (metis set_mset_mset set_mset_union)
    have "length ls + length es + length gs = length xs'"
      using r(2) by (metis size_mset size_union)
    then have len: "length ls < length xs" "length gs < length xs" using Cons by simp_all
    have tl: "\<forall>x\<in>set ls. scalarOfType (Type s) x" and te: "\<forall>x\<in>set es. scalarOfType (Type s) x"
      and tg: "\<forall>x\<in>set gs. scalarOfType (Type s) x"
      using tx sets by auto
    obtain sl where sl: "quickSortValues s ls = Inr sl" "mset sl = mset ls"
      "sorted_wrt (inOrder s) sl"
      using "1.IH" len(1) tl by blast
    obtain sg where sg: "quickSortValues s gs = Inr sg" "mset sg = mset gs"
      "sorted_wrt (inOrder s) sg"
      using "1.IH" len(2) tg by blast
    have ssl: "set sl = set ls" using sl(2) by (rule mset_eq_setD)
    have ssg: "set sg = set gs" using sg(2) by (rule mset_eq_setD)
    have res: "quickSortValues s xs = Inr (sl @ p # es @ sg)"
      using Cons r(1) sl(1) sg(1) by simp
    have ms: "mset (sl @ p # es @ sg) = mset xs"
      using Cons r(2) sl(2) sg(2) by (simp add: ac_simps)
    note tr = inOrder_trans [OF assms]
    have ee: "sorted_wrt (inOrder s) es"
    proof -
      have "inOrder s a b" if "a \<in> set es" "b \<in> set es" for a b
        using tr [of a p b] that te tp r(4) by blast
      then show ?thesis by (simp add: sorted_wrt_iff_nth_less)
    qed
    have eg: "inOrder s a b" if "a \<in> set es" "b \<in> set gs" for a b
      using tr [of a p b] that te tg tp r(4,5) by blast
    have lp: "inOrder s a p" if "a \<in> set ls" for a using that r(3) by blast
    have le: "inOrder s a b" if "a \<in> set ls" "b \<in> set es" for a b
      using tr [of a p b] that tl te tp r(3,4) by blast
    have lg: "inOrder s a b" if "a \<in> set ls" "b \<in> set gs" for a b
      using tr [of a p b] that tl tg tp r(3,5) by blast
    have "sorted_wrt (inOrder s) (sl @ p # es @ sg)"
      using sl(3) sg(3) ee eg lp le lg r(4,5) ssl ssg
      by (auto simp: sorted_wrt_append)
    then show ?thesis using res ms by blast
  qed
qed

lemma sortValues_sorted:
  assumes "Type s \<noteq> TypeFloat" "\<forall>x\<in>set xs. scalarOfType (Type s) x"
  shows "\<exists>ys. sortValues s xs = Inr ys \<and> mset ys = mset xs \<and> sorted_wrt (inOrder s) ys"
proof -
  obtain ys where ys: "sortValues s xs = Inr ys" "mset ys = mset xs" "adjacentSorted s ys"
    using sortValues_scalars [OF assms(2)] by blast
  have "set ys = set xs" using ys(2) by (rule mset_eq_setD)
  then have "\<forall>y\<in>set ys. scalarOfType (Type s) y" using assms(2) by simp
  then have "sorted_wrt (inOrder s) ys"
    using adjacentSorted_sorted_wrt [OF assms(1) _ ys(3)] by blast
  then show ?thesis using ys by blast
qed

lemma f64_example_values:
  "\<not> f64_isNaN 0x3EA421F5F40D8376" "\<not> f64_isInf 0x3EA421F5F40D8376"
  "f64_val 0x3EA421F5F40D8376 = 5666839779443574 * 2 ^ 1001"
  "\<not> f64_isNaN 0x3EB421F5F40D8376" "\<not> f64_isInf 0x3EB421F5F40D8376"
  "f64_val 0x3EB421F5F40D8376 = 5666839779443574 * 2 ^ 1002"
  "\<not> f64_isInf 0"
  by (simp_all add: f64_isNaN_def f64_isInf_def f64_val_def f64_sign_def f64_mag_def
      f64_exp_def f64_frac_def)

text \<open>
  The Float comparator is not transitive: \<open>0.0\<close> and \<open>6e-7\<close> compare equal, \<open>6e-7\<close> and
  \<open>1.2e-6\<close> compare equal, and \<open>0.0\<close> is less than \<open>1.2e-6\<close>.
\<close>

lemma compareValues_Float_examples:
  "compareValues (Schema TypeFloat None) (VFloat 0) (VFloat 0x3EA421F5F40D8376) = Inr 0"
  "compareValues (Schema TypeFloat None) (VFloat 0x3EA421F5F40D8376) (VFloat 0x3EB421F5F40D8376) = Inr 0"
  "compareValues (Schema TypeFloat None) (VFloat 0) (VFloat 0x3EB421F5F40D8376) = Inr (- 1)"
  "compareValues (Schema TypeFloat None) (VFloat 0x3EB421F5F40D8376) (VFloat 0x3EA421F5F40D8376) = Inr 0"
  "compareValues (Schema TypeFloat None) (VFloat 0x3EB421F5F40D8376) (VFloat 0) = Inr 1"
  by (simp_all add: compareValues_Float_finite f64_example_values f64_zero_not_NaN
      f64_val_zero f64_epsilon_val)

text \<open>
  C7 as stated fails on Float: a three-way quicksort with compareValues as its comparator
  leaves the floats \<open>[6e-7, 1.2e-6, 0.0]\<close> in this order, since \<open>1.2e-6\<close> and \<open>0.0\<close> both
  compare equal to the pivot \<open>6e-7\<close>, and the adjacent pair \<open>(1.2e-6, 0.0)\<close> compares as 1.
\<close>

theorem quicksort_of_floats_not_adjacent_in_order:
  "quickSortValues (Schema TypeFloat None)
     [VFloat 0x3EA421F5F40D8376, VFloat 0x3EB421F5F40D8376, VFloat 0] =
     Inr [VFloat 0x3EA421F5F40D8376, VFloat 0x3EB421F5F40D8376, VFloat 0] \<and>
   compareValues (Schema TypeFloat None) (VFloat 0x3EB421F5F40D8376) (VFloat 0) = Inr 1"
  by (simp add: compareValues_Float_examples)

text \<open>
  C7, amended. On a finite sequence of values of one orderable type compareValues never
  panics and is antisymmetric, and the stable insertion sort with compareValues as its
  comparator returns a rearrangement of the sequence in which every adjacent pair
  \<open>(a, b)\<close> has \<open>compareValues(schema, a, b) <= 0\<close>. For String, Bool and Int
  compareValues is moreover transitive: a rearrangement has that property of adjacent
  pairs exactly when it is sorted (no element is greater than a later one), and the
  insertion sort and the three-way quicksort both return a sorted rearrangement.
\<close>

theorem sorted_by_compareValues_adjacent_in_order:
  assumes "\<forall>x\<in>set xs. scalarOfType (Type s) x"
  shows
    "(\<forall>a\<in>set xs. \<forall>b\<in>set xs.
        \<exists>c. compareValues s a b = Inr c \<and> compareValues s b a = Inr (- c)) \<and>
     (\<exists>ys. sortValues s xs = Inr ys \<and> mset ys = mset xs \<and>
           (\<forall>i. Suc i < length ys \<longrightarrow>
              (\<exists>c. compareValues s (ys ! i) (ys ! Suc i) = Inr c \<and> c \<le> 0))) \<and>
     (Type s \<noteq> TypeFloat \<longrightarrow>
        (\<forall>a\<in>set xs. \<forall>b\<in>set xs. \<forall>c\<in>set xs.
           inOrder s a b \<and> inOrder s b c \<longrightarrow> inOrder s a c) \<and>
        (\<forall>ys. mset ys = mset xs \<longrightarrow>
           (sorted_wrt (inOrder s) ys \<longleftrightarrow>
            (\<forall>i. Suc i < length ys \<longrightarrow> inOrder s (ys ! i) (ys ! Suc i)))) \<and>
        (\<exists>ys. sortValues s xs = Inr ys \<and> mset ys = mset xs \<and> sorted_wrt (inOrder s) ys) \<and>
        (\<exists>ys. quickSortValues s xs = Inr ys \<and> mset ys = mset xs \<and>
              sorted_wrt (inOrder s) ys))"
proof -
  have anti: "\<forall>a\<in>set xs. \<forall>b\<in>set xs.
        \<exists>c. compareValues s a b = Inr c \<and> compareValues s b a = Inr (- c)"
    using assms compareValues_antisym by blast
  obtain ys where ys: "sortValues s xs = Inr ys" "mset ys = mset xs" "adjacentSorted s ys"
    using sortValues_scalars [OF assms] by blast
  have "\<forall>i. Suc i < length ys \<longrightarrow>
          (\<exists>c. compareValues s (ys ! i) (ys ! Suc i) = Inr c \<and> c \<le> 0)"
    using ys(3) by (simp add: adjacentSorted_iff_nth inOrder_iff)
  then have ins: "\<exists>ys. sortValues s xs = Inr ys \<and> mset ys = mset xs \<and>
           (\<forall>i. Suc i < length ys \<longrightarrow>
              (\<exists>c. compareValues s (ys ! i) (ys ! Suc i) = Inr c \<and> c \<le> 0))"
    using ys(1,2) by blast
  have rest: "(\<forall>a\<in>set xs. \<forall>b\<in>set xs. \<forall>c\<in>set xs.
           inOrder s a b \<and> inOrder s b c \<longrightarrow> inOrder s a c) \<and>
        (\<forall>ys. mset ys = mset xs \<longrightarrow>
           (sorted_wrt (inOrder s) ys \<longleftrightarrow>
            (\<forall>i. Suc i < length ys \<longrightarrow> inOrder s (ys ! i) (ys ! Suc i)))) \<and>
        (\<exists>ys. sortValues s xs = Inr ys \<and> mset ys = mset xs \<and> sorted_wrt (inOrder s) ys) \<and>
        (\<exists>ys. quickSortValues s xs = Inr ys \<and> mset ys = mset xs \<and>
              sorted_wrt (inOrder s) ys)"
    if nf: "Type s \<noteq> TypeFloat"
  proof -
    have tr: "\<forall>a\<in>set xs. \<forall>b\<in>set xs. \<forall>c\<in>set xs.
           inOrder s a b \<and> inOrder s b c \<longrightarrow> inOrder s a c"
      using inOrder_trans [OF nf] assms by blast
    have eq: "sorted_wrt (inOrder s) zs \<longleftrightarrow>
            (\<forall>i. Suc i < length zs \<longrightarrow> inOrder s (zs ! i) (zs ! Suc i))"
      if "mset zs = mset xs" for zs
    proof -
      have "set zs = set xs" using that by (rule mset_eq_setD)
      then have "\<forall>y\<in>set zs. scalarOfType (Type s) y" using assms by simp
      then show ?thesis
        using adjacentSorted_sorted_wrt [OF nf, of zs] sorted_wrt_adjacentSorted [of s zs]
        by (auto simp: adjacentSorted_iff_nth)
    qed
    show ?thesis
      using tr eq sortValues_sorted [OF nf assms] quickSortValues_scalars [OF nf assms]
      by blast
  qed
  show ?thesis using anti ins rest by blast
qed

text \<open>The witness: the ints \<open>[3, 1, 2]\<close> are sorted to \<open>[1, 2, 3]\<close> by both sorts, and the
  two adjacent pairs of the result are in order.\<close>

theorem sorted_by_compareValues_adjacent_in_order_witness:
  "sortValues (Schema TypeInt None) [VInt 3, VInt 1, VInt 2] = Inr [VInt 1, VInt 2, VInt 3] \<and>
   quickSortValues (Schema TypeInt None) [VInt 3, VInt 1, VInt 2] =
     Inr [VInt 1, VInt 2, VInt 3] \<and>
   mset [VInt 1, VInt 2, VInt 3] = mset [VInt 3, VInt 1, VInt 2] \<and>
   (\<exists>c. compareValues (Schema TypeInt None) (VInt 1) (VInt 2) = Inr c \<and> c \<le> 0) \<and>
   (\<exists>c. compareValues (Schema TypeInt None) (VInt 2) (VInt 3) = Inr c \<and> c \<le> 0)"
proof -
  have h: "\<forall>x\<in>set [VInt 3, VInt 1, VInt 2]. scalarOfType (Type (Schema TypeInt None)) x"
    by (simp add: scalarOfType_def)
  have v: "sortValues (Schema TypeInt None) [VInt 3, VInt 1, VInt 2] =
             Inr [VInt 1, VInt 2, VInt 3]"
    by (simp add: lessValues_def compareValues_Int)
  have w: "quickSortValues (Schema TypeInt None) [VInt 3, VInt 1, VInt 2] =
             Inr [VInt 1, VInt 2, VInt 3]"
    by (simp add: compareValues_Int)
  note t = sorted_by_compareValues_adjacent_in_order [OF h]
  obtain ys where ys: "sortValues (Schema TypeInt None) [VInt 3, VInt 1, VInt 2] = Inr ys"
    "mset ys = mset [VInt 3, VInt 1, VInt 2]"
    "\<forall>i. Suc i < length ys \<longrightarrow>
       (\<exists>c. compareValues (Schema TypeInt None) (ys ! i) (ys ! Suc i) = Inr c \<and> c \<le> 0)"
    using t [THEN conjunct2, THEN conjunct1] by blast
  have e: "ys = [VInt 1, VInt 2, VInt 3]" using ys(1) v by simp
  have p0: "\<exists>c. compareValues (Schema TypeInt None) (VInt 1) (VInt 2) = Inr c \<and> c \<le> 0"
    using ys(3) [rule_format, of 0] unfolding e by simp
  have p1: "\<exists>c. compareValues (Schema TypeInt None) (VInt 2) (VInt 3) = Inr c \<and> c \<le> 0"
    using ys(3) [rule_format, of "Suc 0"] unfolding e by simp
  show ?thesis using v w ys(2) p0 p1 unfolding e by blast
qed

end
